theory Spec2Isabelle
  imports Complex_Main "HOL-Library.Word"
begin

unbundle bit_operations_syntax

section \<open>Bit utilities of the G3RUH modem (modem_g3ruh.py)\<close>

text \<open>
  Python integers are unbounded and their bit operations act on the two's-complement
  representation, exactly as \<open>AND\<close>, \<open>OR\<close>, \<open>XOR\<close>, \<open>push_bit\<close> and \<open>drop_bit\<close> do on
  \<^typ>\<open>int\<close>. A bit stream is a \<open>list[int]\<close>, modelled as an \<^typ>\<open>int list\<close>; a
  \<open>bytes\<close> value is a list of 8-bit words.
\<close>

type_synonym byte = "8 word"
type_synonym bytes = "byte list"

subsection \<open>crc16_x25\<close>

fun crc_bit_loop :: "nat \<Rightarrow> int \<Rightarrow> int" where
  "crc_bit_loop 0 crc = crc"
| "crc_bit_loop (Suc n) crc =
     crc_bit_loop n (if crc AND 1 \<noteq> 0 then drop_bit 1 crc XOR 0x8408 else drop_bit 1 crc)"

fun crc_loop :: "bytes \<Rightarrow> int \<Rightarrow> int" where
  "crc_loop [] crc = crc"
| "crc_loop (b # data) crc = crc_loop data (crc_bit_loop 8 (crc XOR uint b))"

definition crc16_x25 :: "bytes \<Rightarrow> int" where
  "crc16_x25 data = (NOT (crc_loop data 0xFFFF)) AND 0xFFFF"

subsection \<open>bytes_to_bits_lsb_first, bits_to_bytes_lsb_first\<close>

definition byte_bits :: "byte \<Rightarrow> int list" where
  "byte_bits b = map (\<lambda>i. drop_bit i (uint b) AND 1) [0..<8]"

definition bytes_to_bits_lsb_first :: "bytes \<Rightarrow> int list" where
  "bytes_to_bits_lsb_first data = concat (map byte_bits data)"

fun bits_to_bytes_loop :: "int list \<Rightarrow> int \<Rightarrow> nat \<Rightarrow> bytes" where
  "bits_to_bytes_loop [] acc n = []"
| "bits_to_bytes_loop (bt # bits) acc n =
     (let acc' = acc OR push_bit n (bt AND 1) in
      if n + 1 = 8 then word_of_int acc' # bits_to_bytes_loop bits 0 0
      else bits_to_bytes_loop bits acc' (n + 1))"

definition bits_to_bytes_lsb_first :: "int list \<Rightarrow> bytes" where
  "bits_to_bytes_lsb_first bits = bits_to_bytes_loop bits 0 0"

subsection \<open>bitstuff, bitunstuff\<close>

fun bitstuff_loop :: "int list \<Rightarrow> nat \<Rightarrow> int list" where
  "bitstuff_loop [] ones = []"
| "bitstuff_loop (b # bits) ones =
     (let bt = b AND 1 in
      if bt = 1 then
        (if ones + 1 = 5 then bt # 0 # bitstuff_loop bits 0
         else bt # bitstuff_loop bits (ones + 1))
      else bt # bitstuff_loop bits 0)"

definition bitstuff :: "int list \<Rightarrow> int list" where
  "bitstuff bits = bitstuff_loop bits 0"

text \<open>
  The \<open>while i < len(bits)\<close> loop of \<open>bitunstuff\<close>: the argument list is \<open>bits[i:]\<close>, and
  the extra \<open>i += 1\<close> after a fifth 1 that is followed by a 0 drops that 0 unread.
\<close>

fun bitunstuff_loop :: "int list \<Rightarrow> nat \<Rightarrow> int list" where
  "bitunstuff_loop [] ones = []"
| "bitunstuff_loop (bt # rest) ones =
     (if bt = 1 then
        (if ones + 1 = 5 then
           (case rest of
              nxt # rest' \<Rightarrow>
                if nxt = 0 then bt # bitunstuff_loop rest' 0
                else bt # bitunstuff_loop rest 0
            | [] \<Rightarrow> bt # bitunstuff_loop rest 0)
         else bt # bitunstuff_loop rest (ones + 1))
      else bt # bitunstuff_loop rest 0)"

definition bitunstuff :: "int list \<Rightarrow> int list" where
  "bitunstuff bits = bitunstuff_loop bits 0"

subsection \<open>nrzi_decode, nrzi_encode\<close>

fun nrzi_decode_loop :: "int \<Rightarrow> int list \<Rightarrow> int list" where
  "nrzi_decode_loop prev [] = []"
| "nrzi_decode_loop prev (lvl # levels) =
     (if lvl = prev then 1 else 0) # nrzi_decode_loop lvl levels"

fun nrzi_decode :: "int list \<Rightarrow> int list" where
  "nrzi_decode [] = []"
| "nrzi_decode (l0 # levels) = nrzi_decode_loop l0 levels"

fun nrzi_encode_loop :: "int \<Rightarrow> int list \<Rightarrow> int list" where
  "nrzi_encode_loop level [] = []"
| "nrzi_encode_loop level (b # bits) =
     (let level' = (if b AND 1 = 0 then level XOR 1 else level)
      in level' # nrzi_encode_loop level' bits)"

definition nrzi_encode :: "int list \<Rightarrow> int \<Rightarrow> int list" where
  "nrzi_encode bits initial_level =
     (let level = initial_level AND 1 in level # nrzi_encode_loop level bits)"

subsection \<open>g3ruh_descramble, g3ruh_scramble\<close>

fun g3ruh_loop :: "int \<Rightarrow> int \<Rightarrow> int list \<Rightarrow> int list" where
  "g3ruh_loop variant lfsr [] = []"
| "g3ruh_loop variant lfsr (b0 # bits) =
     (let b = b0 AND 1;
          tap = (drop_bit 16 lfsr XOR drop_bit 11 lfsr) AND 1;
          out = b XOR tap;
          lfsr' = (if variant = 0 then (push_bit 1 lfsr OR b) AND 0x1FFFF
                   else (push_bit 1 lfsr OR out) AND 0x1FFFF)
      in out # g3ruh_loop variant lfsr' bits)"

definition g3ruh_descramble :: "int list \<Rightarrow> int \<Rightarrow> int list" where
  "g3ruh_descramble bits variant = g3ruh_loop variant 0 bits"

definition g3ruh_scramble :: "int list \<Rightarrow> int \<Rightarrow> int list" where
  "g3ruh_scramble bits variant = g3ruh_descramble bits variant"

section \<open>Errors\<close>

text \<open>
  Every \<open>raise\<close> of the source is a value: the exception class with its message (the
  formatted part of an f-string message is left out).
\<close>

datatype error =
    ValueError string
  | UnicodeEncodeError
  | UnicodeDecodeError
  | DecodeError string
  | RuntimeError string
  | StructError
  | ZeroDivisionError
  | WaveError
  | SystemExit string

definition ebind :: "error + 'a \<Rightarrow> ('a \<Rightarrow> error + 'b) \<Rightarrow> error + 'b" where
  "ebind m f = (case m of Inl e \<Rightarrow> Inl e | Inr x \<Rightarrow> f x)"

section \<open>AX.25 UI frames (ax25.py)\<close>

text \<open>
  A Python \<open>str\<close> in an address is modelled as a \<^typ>\<open>string\<close>, that is, a list of
  characters with code points below 256. \<open>str.upper\<close> on these code points: the ASCII and
  Latin-1 lower-case letters move to their capitals, the sharp s (223) becomes the two
  letters SS, and the micro sign (181) and y with diaeresis (255) get capitals beyond
  Latin-1 (924 and 376); so the result is a list of code points.
\<close>

definition upper_cp :: "nat \<Rightarrow> nat list" where
  "upper_cp c =
     (if 97 \<le> c \<and> c \<le> 122 then [c - 32]
      else if c = 181 then [924]
      else if c = 223 then [83, 83]
      else if 224 \<le> c \<and> c \<le> 254 \<and> c \<noteq> 247 then [c - 32]
      else if c = 255 then [376]
      else [c])"

definition str_upper :: "string \<Rightarrow> nat list" where
  "str_upper s = concat (map (\<lambda>c. upper_cp (of_char c)) s)"

definition ljust :: "nat list \<Rightarrow> nat \<Rightarrow> nat list" where
  "ljust s w = s @ replicate (w - length s) 32"

definition rstrip_space :: "string \<Rightarrow> string" where
  "rstrip_space s = rev (dropWhile (\<lambda>c. c = CHR '' '') (rev s))"

record AX25Address =
  callsign :: string
  ssid :: int

record AX25Frame =
  destination :: AX25Address
  source :: AX25Address
  control :: int
  pid :: int
  payload :: bytes


text \<open>\<open>AX25Address.encode(self, *, last)\<close>\<close>

definition address_encode :: "AX25Address \<Rightarrow> bool \<Rightarrow> error + bytes" where
  "address_encode a lst =
     (let cs = str_upper (callsign a) in
      if length cs > 6 then Inl (ValueError ''AX.25 callsign too long'')
      else if \<not> (0 \<le> ssid a \<and> ssid a \<le> 15) then Inl (ValueError ''AX.25 SSID must be 0..15'')
      else if \<exists>c\<in>set (ljust cs 6). 128 \<le> c then Inl UnicodeEncodeError
      else
        (let call_bytes = map int (ljust cs 6);
             shifted = map (\<lambda>b. word_of_int (push_bit 1 (b AND 0x7F))) call_bytes;
             ssid_byte = 0x60 OR push_bit 1 (ssid a AND 0x0F) OR (if lst then 0x01 else 0x00)
         in Inr (shifted @ [word_of_int ssid_byte])))"

text \<open>\<open>AX25Address.decode(addr7)\<close>\<close>

definition address_decode :: "bytes \<Rightarrow> error + AX25Address" where
  "address_decode addr7 =
     (if length addr7 \<noteq> 7 then Inl (ValueError ''AX.25 address must be 7 bytes'')
      else
        (let cps = map (\<lambda>b. drop_bit 1 (uint b) AND 0x7F) (take 6 addr7) in
         if \<exists>c\<in>set cps. 128 \<le> c then Inl UnicodeDecodeError
         else
           (let call = map (\<lambda>c. char_of c) cps;
                cs = rstrip_space call;
                sid = drop_bit 1 (uint (addr7 ! 6)) AND 0x0F
            in Inr \<lparr>callsign = cs, ssid = sid\<rparr>)))"

text \<open>\<open>AX25Address.is_last(addr7)\<close>\<close>

definition address_is_last :: "bytes \<Rightarrow> error + bool" where
  "address_is_last addr7 =
     (if length addr7 \<noteq> 7 then Inl (ValueError ''AX.25 address must be 7 bytes'')
      else Inr (uint (addr7 ! 6) AND 0x01 \<noteq> 0))"

text \<open>
  \<open>AX25Frame.encode(self)\<close>. \<open>bytes([control, pid])\<close> raises ValueError unless both are in
  \<open>range(256)\<close>.
\<close>

definition frame_encode :: "AX25Frame \<Rightarrow> error + bytes" where
  "frame_encode f =
     ebind (address_encode (destination f) False) (\<lambda>d.
     ebind (address_encode (source f) True) (\<lambda>s.
       if \<not> (0 \<le> control f \<and> control f < 256 \<and> 0 \<le> pid f \<and> pid f < 256)
       then Inl (ValueError ''bytes must be in range(0, 256)'')
       else Inr ((d @ s @ [word_of_int (control f), word_of_int (pid f)]) @ payload f)))"

text \<open>\<open>AX25Frame.decode(raw)\<close>; the slices \<open>raw[0:7]\<close> and \<open>raw[7:14]\<close> never fail.\<close>

definition frame_decode :: "bytes \<Rightarrow> error + AX25Frame" where
  "frame_decode raw =
     (if length raw < 7 + 7 + 2 then Inl (ValueError ''Frame too short to be AX.25'')
      else
        (let dst7 = take 7 raw;
             src7 = take 7 (drop 7 raw) in
         ebind (address_is_last src7) (\<lambda>is_lst.
           if \<not> is_lst
           then Inl (ValueError ''Unsupported AX.25 frame: source address not marked last'')
           else
             (let ctl = uint (raw ! 14);
                  pd = uint (raw ! 15);
                  pl = drop 16 raw in
              ebind (address_decode dst7) (\<lambda>d.
              ebind (address_decode src7) (\<lambda>s.
                Inr \<lparr>destination = d, source = s, control = ctl, pid = pd, payload = pl\<rparr>))))))"

text \<open>
  The frames of the round-trip property: a callsign of one to six characters, each an
  ASCII character that \<open>upper()\<close> leaves alone (so not a lower-case letter), not ending
  in a space; an SSID from 0 to 15.
\<close>

definition is_upper_ascii :: "char \<Rightarrow> bool" where
  "is_upper_ascii c =
     ((of_char c :: nat) < 128 \<and> \<not> (97 \<le> (of_char c :: nat) \<and> (of_char c :: nat) \<le> 122))"

definition valid_callsign :: "string \<Rightarrow> bool" where
  "valid_callsign cs =
     (1 \<le> length cs \<and> length cs \<le> 6 \<and> list_all is_upper_ascii cs \<and> last cs \<noteq> CHR '' '')"

definition valid_address :: "AX25Address \<Rightarrow> bool" where
  "valid_address a = (valid_callsign (callsign a) \<and> 0 \<le> ssid a \<and> ssid a \<le> 15)"

text \<open>The frame of scenario S3.\<close>

definition s3_frame :: AX25Frame where
  "s3_frame =
     \<lparr>destination = \<lparr>callsign = ''HA7FLR'', ssid = 0\<rparr>,
      source = \<lparr>callsign = ''GROUND'', ssid = 0\<rparr>,
      control = 0x03, pid = 0xF0, payload = [0x00, 0x01]\<rparr>"

text \<open>A bit stream with a single 1 at index 40, and the run-length check used below.\<close>

definition c1_bits :: "int list" where
  "c1_bits = replicate 40 0 @ [1] @ replicate 30 0"

fun runs_ok :: "nat \<Rightarrow> int list \<Rightarrow> bool" where
  "runs_ok k [] = True"
| "runs_ok k (y # ys) = (if y = 1 then k + 1 < 6 \<and> runs_ok (k + 1) ys else runs_ok 0 ys)"

section \<open>Telemetry and telecommand codec (proto.py)\<close>

text \<open>\<open>_take(buf, offset, n)\<close>: the slice and the new offset, or a truncation error.\<close>

definition take_buf :: "bytes \<Rightarrow> nat \<Rightarrow> nat \<Rightarrow> error + (bytes \<times> nat)" where
  "take_buf buf offset n =
     (let e = offset + n in
      if e > length buf then Inl (DecodeError ''Truncated payload'')
      else Inr (take n (drop offset buf), e))"

text \<open>
  \<open>struct.unpack\<close> of a big-endian unsigned (\<open>>H\<close>, \<open>>I\<close>) or signed (\<open>>h\<close>, \<open>>q\<close>)
  integer from a chunk of exactly that size.
\<close>

definition be_uint :: "bytes \<Rightarrow> int" where
  "be_uint bs = foldl (\<lambda>a b. a * 256 + uint b) 0 bs"

definition be_sint :: "bytes \<Rightarrow> int" where
  "be_sint bs =
     (let v = be_uint bs; w = 8 * length bs in
      if 2 ^ (w - 1) \<le> v then v - 2 ^ w else v)"

definition read_u8 :: "bytes \<Rightarrow> nat \<Rightarrow> error + (int \<times> nat)" where
  "read_u8 buf offset =
     ebind (take_buf buf offset 1) (\<lambda>(chunk, offset'). Inr (uint (chunk ! 0), offset'))"

definition read_u16be :: "bytes \<Rightarrow> nat \<Rightarrow> error + (int \<times> nat)" where
  "read_u16be buf offset =
     ebind (take_buf buf offset 2) (\<lambda>(chunk, offset'). Inr (be_uint chunk, offset'))"

definition read_u32be :: "bytes \<Rightarrow> nat \<Rightarrow> error + (int \<times> nat)" where
  "read_u32be buf offset =
     ebind (take_buf buf offset 4) (\<lambda>(chunk, offset'). Inr (be_uint chunk, offset'))"

definition read_i16be :: "bytes \<Rightarrow> nat \<Rightarrow> error + (int \<times> nat)" where
  "read_i16be buf offset =
     ebind (take_buf buf offset 2) (\<lambda>(chunk, offset'). Inr (be_sint chunk, offset'))"

definition read_i64be :: "bytes \<Rightarrow> nat \<Rightarrow> error + (int \<times> nat)" where
  "read_i64be buf offset =
     ebind (take_buf buf offset 8) (\<lambda>(chunk, offset'). Inr (be_sint chunk, offset'))"

text \<open>
  A decoded Python \<open>str\<close> is the list of its code points. \<open>bytes.decode("utf-8",
  errors="strict")\<close> accepts exactly the well-formed UTF-8 sequences: no overlong forms,
  no surrogates, nothing above U+10FFFF; \<open>None\<close> stands for UnicodeDecodeError.
  \<open>bytes.decode("latin1")\<close> maps every byte to the code point of the same value.
\<close>

type_synonym pystr = "nat list"

definition is_cont :: "nat \<Rightarrow> bool" where
  "is_cont b = (0x80 \<le> b \<and> b \<le> 0xBF)"

fun utf8_decode :: "nat list \<Rightarrow> pystr option" where
  "utf8_decode [] = Some []"
| "utf8_decode (b0 # rest) =
     (if b0 < 0x80 then map_option ((#) b0) (utf8_decode rest)
      else if 0xC2 \<le> b0 \<and> b0 \<le> 0xDF then
        (case rest of
           b1 # r1 \<Rightarrow>
             if is_cont b1
             then map_option ((#) ((b0 - 0xC0) * 64 + (b1 - 0x80))) (utf8_decode r1)
             else None
         | _ \<Rightarrow> None)
      else if 0xE0 \<le> b0 \<and> b0 \<le> 0xEF then
        (case rest of
           b1 # b2 # r2 \<Rightarrow>
             if (if b0 = 0xE0 then 0xA0 \<le> b1 \<and> b1 \<le> 0xBF
                 else if b0 = 0xED then 0x80 \<le> b1 \<and> b1 \<le> 0x9F
                 else is_cont b1) \<and> is_cont b2
             then map_option
                    ((#) ((b0 - 0xE0) * 4096 + (b1 - 0x80) * 64 + (b2 - 0x80)))
                    (utf8_decode r2)
             else None
         | _ \<Rightarrow> None)
      else if 0xF0 \<le> b0 \<and> b0 \<le> 0xF4 then
        (case rest of
           b1 # b2 # b3 # r3 \<Rightarrow>
             if (if b0 = 0xF0 then 0x90 \<le> b1 \<and> b1 \<le> 0xBF
                 else if b0 = 0xF4 then 0x80 \<le> b1 \<and> b1 \<le> 0x8F
                 else is_cont b1) \<and> is_cont b2 \<and> is_cont b3
             then map_option
                    ((#) ((b0 - 0xF0) * 262144 + (b1 - 0x80) * 4096 + (b2 - 0x80) * 64
                          + (b3 - 0x80)))
                    (utf8_decode r3)
             else None
         | _ \<Rightarrow> None)
      else None)"

definition latin1_decode :: "bytes \<Rightarrow> pystr" where
  "latin1_decode bs = map unat bs"

definition read_lp_string :: "bytes \<Rightarrow> nat \<Rightarrow> error + (pystr \<times> nat)" where
  "read_lp_string buf offset =
     ebind (read_u8 buf offset) (\<lambda>(n, offset1).
     ebind (take_buf buf offset1 (nat n)) (\<lambda>(chunk, offset2).
       (case utf8_decode (map unat chunk) of
          Some s \<Rightarrow> Inr (s, offset2)
        | None \<Rightarrow> Inr (latin1_decode chunk, offset2))))"

text \<open>
  The record \<open>TelemetryTL\<close>. \<open>temperature_c\<close> is the float \<open>temp_raw / 10.0\<close>, kept as
  the exact quotient.
\<close>

record TelemetryTL =
  sequence :: int
  timestamp :: int
  uptime :: int
  boot_count :: int
  restart_reason :: int
  mode :: int
  flags :: int
  battery_voltages_mv :: "int \<times> int \<times> int"
  battery_currents_ma :: "int \<times> int \<times> int"
  temperature_c :: rat
  motd :: pystr

definition decode_telemetry :: "bytes \<Rightarrow> error + TelemetryTL" where
  "decode_telemetry buf =
     ebind (read_u16be buf 0) (\<lambda>(packet_type, o1).
       if packet_type \<noteq> 0x544C then Inl (DecodeError ''Not a TL telemetry packet'')
       else
     ebind (read_u32be buf o1) (\<lambda>(sq, o2).
     ebind (read_i64be buf o2) (\<lambda>(ts, o3).
     ebind (read_u32be buf o3) (\<lambda>(up, o4).
     ebind (read_u32be buf o4) (\<lambda>(bc, o5).
     ebind (read_u8 buf o5) (\<lambda>(rr, o6).
     ebind (read_u8 buf o6) (\<lambda>(md, o7).
     ebind (read_u8 buf o7) (\<lambda>(fl, o8).
     ebind (read_u16be buf o8) (\<lambda>(v0, o9).
     ebind (read_u16be buf o9) (\<lambda>(v1, o10).
     ebind (read_u16be buf o10) (\<lambda>(v2, o11).
     ebind (read_u16be buf o11) (\<lambda>(c0, o12).
     ebind (read_u16be buf o12) (\<lambda>(c1, o13).
     ebind (read_u16be buf o13) (\<lambda>(c2, o14).
     ebind (read_i16be buf o14) (\<lambda>(temp_raw, o15).
     ebind (read_lp_string buf o15) (\<lambda>(m, o16).
       Inr \<lparr>sequence = sq, timestamp = ts, uptime = up, boot_count = bc,
            restart_reason = rr, mode = md, flags = fl,
            battery_voltages_mv = (v0, v1, v2),
            battery_currents_ma = (c0, c1, c2),
            temperature_c = of_int temp_raw / 10,
            motd = m\<rparr>))))))))))))))))"

text \<open>
  \<open>hmac.new(HMAC_KEY, body, sha256).digest()\<close> is a function of the body alone, the key
  being a constant; HMAC-SHA-256 is library code and enters the model as the parameter
  \<open>mac\<close>. \<open>struct.pack(">HI", command_type, sequence)\<close> is reached with both in range.
\<close>

definition pack_HI :: "int \<Rightarrow> int \<Rightarrow> bytes" where
  "pack_HI h i =
     [word_of_int (drop_bit 8 h), word_of_int h,
      word_of_int (drop_bit 24 i), word_of_int (drop_bit 16 i),
      word_of_int (drop_bit 8 i), word_of_int i]"

definition build_telecommand :: "(bytes \<Rightarrow> bytes) \<Rightarrow> int \<Rightarrow> int \<Rightarrow> bytes \<Rightarrow> error + bytes" where
  "build_telecommand mac command_type sq pl =
     (if \<not> (0 \<le> command_type \<and> command_type \<le> 0xFFFF)
      then Inl (ValueError ''command_type must fit uint16'')
      else if \<not> (0 \<le> sq \<and> sq \<le> 0xFFFFFFFF)
      then Inl (ValueError ''sequence must fit uint32'')
      else
        (let body = pack_HI command_type sq @ pl;
             m = mac body
         in Inr (body @ m)))"

text \<open>
  \<open>verify_telecommand(packet)\<close> returns an error string or \<open>None\<close>;
  \<open>hmac.compare_digest\<close> is equality of the two byte strings.
\<close>

definition verify_telecommand :: "(bytes \<Rightarrow> bytes) \<Rightarrow> bytes \<Rightarrow> string option" where
  "verify_telecommand mac packet =
     (if length packet < 2 + 4 + 32 then Some ''Telecommand too short''
      else
        (let body = take (length packet - 32) packet;
             sg = drop (length packet - 32) packet;
             expected = mac body
         in if sg \<noteq> expected then Some ''Bad HMAC'' else None))"






subsection \<open>The build commands of cli.py\<close>




text \<open>The payload of scenario S1, and a variant whose message of the day is not UTF-8.\<close>

definition s1_payload :: bytes where
  "s1_payload =
     [0x54, 0x4C, 0, 0, 0, 7, 0, 0, 0, 0, 0, 0, 0, 1, 0, 0, 0x01, 0xF4, 0, 0, 0, 2,
      0, 1, 0, 0x0F, 0xA0, 0x0F, 0xA0, 0x0F, 0xA0, 0, 0x64, 0, 0x64, 0, 0x64, 0, 0xFA,
      4, 0x44, 0x45, 0x4D, 0x4F]"

definition s1_payload_bad_utf8 :: bytes where
  "s1_payload_bad_utf8 = take 39 s1_payload @ [4, 0x44, 0xFF, 0x4D, 0xC3]"



section \<open>HDLC framer and modem (modem_g3ruh.py)\<close>

definition AX25_FLAG :: byte where
  "AX25_FLAG = 0x7E"

record DemodResult =
  frames :: "bytes list"
  chosen_phase :: int
  inverted :: bool
  descramble_variant :: int

subsection \<open>_extract_hdlc_frames\<close>

text \<open>The flag search: all \<open>i\<close> in \<open>range(0, len(bits) - 8 + 1)\<close> with \<open>bits[i:i+8] == flag_bits\<close>.\<close>

definition flag_positions :: "int list \<Rightarrow> nat list" where
  "flag_positions bits =
     (let flag_bits = bytes_to_bits_lsb_first [AX25_FLAG] in
      filter (\<lambda>i. take 8 (drop i bits) = flag_bits) [0..<length bits + 1 - length flag_bits])"

text \<open>
  The body of the loop over \<open>zip(flags, flags[1:])\<close> for one pair: \<open>None\<close> where the
  source says \<open>continue\<close>, the frame without its FCS where it appends one.
\<close>

definition frame_candidate :: "int list \<Rightarrow> nat \<Rightarrow> nat \<Rightarrow> bytes option" where
  "frame_candidate bits a b =
     (let start = a + 8; e = b in
      if e \<le> start then None
      else
        (let payload_bits = take (e - start) (drop start bits) in
         if length payload_bits < 8 * (7 + 7 + 2 + 2) then None
         else
           (let unstuffed = bitunstuff payload_bits;
                data = bits_to_bytes_lsb_first unstuffed in
            if length data < 2 then None
            else
              (let frame_wo_fcs = take (length data - 2) data;
                   fcs_bytes = drop (length data - 2) data;
                   got_fcs = uint (fcs_bytes ! 0) OR push_bit 8 (uint (fcs_bytes ! 1));
                   calc = crc16_x25 frame_wo_fcs
               in if got_fcs \<noteq> calc then None else Some frame_wo_fcs))))"

fun frames_loop :: "int list \<Rightarrow> (nat \<times> nat) list \<Rightarrow> bytes list" where
  "frames_loop bits [] = []"
| "frames_loop bits ((a, b) # pairs) =
     (case frame_candidate bits a b of
        None \<Rightarrow> frames_loop bits pairs
      | Some frame_wo_fcs \<Rightarrow> frame_wo_fcs # frames_loop bits pairs)"

definition extract_hdlc_frames :: "int list \<Rightarrow> bytes list" where
  "extract_hdlc_frames bits =
     (let flags = flag_positions bits in frames_loop bits (zip flags (tl flags)))"

subsection \<open>mod_ax25_frame_to_wav\<close>

text \<open>
  A WAV file is the record of its header fields and its PCM bytes. \<open>struct.pack("<h", v)\<close>
  fails outside the 16-bit range; \<open>struct.pack("<H", fcs)\<close> is reached with a 16-bit
  value. The \<open>wave\<close> module refuses a frame rate that is not positive.
\<close>

record Wav =
  nchannels :: int
  sampwidth :: int
  framerate :: int
  pcm_frames :: bytes

definition pack_h :: "int \<Rightarrow> error + bytes" where
  "pack_h v =
     (if - 32768 \<le> v \<and> v \<le> 32767 then Inr [word_of_int v, word_of_int (drop_bit 8 v)]
      else Inl StructError)"

definition pack_H_le :: "int \<Rightarrow> bytes" where
  "pack_H_le v = [word_of_int v, word_of_int (drop_bit 8 v)]"

fun pcm_loop :: "int list \<Rightarrow> int \<Rightarrow> int \<Rightarrow> error + bytes" where
  "pcm_loop [] amplitude spb = Inr []"
| "pcm_loop (lvl # levels) amplitude spb =
     (let val = (if lvl \<noteq> 0 then amplitude else - amplitude) in
      if 0 < spb then
        ebind (pack_h val) (\<lambda>s.
        ebind (pcm_loop levels amplitude spb) (\<lambda>rest.
          Inr (concat (replicate (nat spb) s) @ rest)))
      else pcm_loop levels amplitude spb)"

definition mod_ax25_frame_to_wav ::
  "bytes \<Rightarrow> int \<Rightarrow> int \<Rightarrow> int \<Rightarrow> int \<Rightarrow> int \<Rightarrow> int \<Rightarrow> int \<Rightarrow> error + Wav" where
  "mod_ax25_frame_to_wav frame baud fs amplitude pre_flags post_flags scramble_variant
      initial_level =
     (if baud = 0 then Inl ZeroDivisionError
      else if fs mod baud \<noteq> 0 then Inl (ValueError ''fs must be an integer multiple of baud'')
      else
        (let spb = fs div baud;
             fcs = crc16_x25 frame;
             frame_fcs = frame @ pack_H_le fcs;
             bits0 = bytes_to_bits_lsb_first (replicate (nat pre_flags) AX25_FLAG)
                     @ bitstuff (bytes_to_bits_lsb_first frame_fcs)
                     @ bytes_to_bits_lsb_first (replicate (nat post_flags) AX25_FLAG);
             bits = g3ruh_scramble bits0 scramble_variant;
             levels = nrzi_encode bits initial_level
         in ebind (pcm_loop levels amplitude spb) (\<lambda>pcm.
              if fs \<le> 0 then Inl WaveError
              else Inr \<lparr>nchannels = 1, sampwidth = 2, framerate = fs, pcm_frames = pcm\<rparr>)))"

text \<open>The call with every keyword argument at its default.\<close>

definition mod_default :: "bytes \<Rightarrow> error + Wav" where
  "mod_default frame = mod_ax25_frame_to_wav frame 9600 48000 20000 32 8 0 1"

subsection \<open>demod_wav_to_ax25_frames\<close>

text \<open>
  \<open>struct.unpack("<%dh" % n, pcm)\<close> on an even number of bytes. Python's \<open>round\<close> goes to
  the even neighbour at a tie. The float quotients \<open>fs / float(baud)\<close> and
  \<open>sum(window) / spb_i\<close> are taken as exact rationals.
\<close>

fun unpack_h :: "bytes \<Rightarrow> int list" where
  "unpack_h (lo # hi # rest) =
     (let v = uint lo + 256 * uint hi in (if 32768 \<le> v then v - 65536 else v) # unpack_h rest)"
| "unpack_h rest = []"

definition py_round :: "rat \<Rightarrow> int" where
  "py_round x =
     (let f = \<lfloor>x\<rfloor>; d = x - of_int f in
      if d < 1 / 2 then f else if 1 / 2 < d then f + 1 else if even f then f else f + 1)"

function levels_loop :: "int list \<Rightarrow> nat \<Rightarrow> nat \<Rightarrow> int list" where
  "levels_loop samples spb_i i =
     (if 0 < spb_i \<and> i + spb_i \<le> length samples then
        (let window = take spb_i (drop i samples);
             avg = (of_int (sum_list window) :: rat) / of_nat spb_i
         in (if 0 \<le> avg then 1 else 0) # levels_loop samples spb_i (i + spb_i))
      else [])"
  by pat_completeness auto
termination
  by (relation "measure (\<lambda>(samples, spb_i, i). length samples - i)") auto

declare levels_loop.simps [simp del]

definition try_variant ::
  "int list \<Rightarrow> int \<Rightarrow> bool \<Rightarrow> DemodResult option \<Rightarrow> int \<Rightarrow> DemodResult option" where
  "try_variant bits_nrzi phase ivt best variant =
     (let bits = g3ruh_descramble bits_nrzi variant;
          frs = extract_hdlc_frames bits
      in if frs = [] then best
         else
           (let cand = \<lparr>frames = frs, chosen_phase = phase, inverted = ivt,
                        descramble_variant = variant\<rparr>
            in case best of
                 None \<Rightarrow> Some cand
               | Some b \<Rightarrow> if length (frames b) < length (frames cand) then Some cand else best))"

definition try_inverted ::
  "int list \<Rightarrow> int \<Rightarrow> DemodResult option \<Rightarrow> bool \<Rightarrow> DemodResult option" where
  "try_inverted levels phase best ivt =
     (let lev = map (\<lambda>l. l XOR (if ivt then 1 else 0)) levels;
          bits_nrzi = nrzi_decode lev
      in foldl (try_variant bits_nrzi phase ivt) best [0, 1])"

definition try_phase ::
  "int list \<Rightarrow> nat \<Rightarrow> DemodResult option \<Rightarrow> nat \<Rightarrow> DemodResult option" where
  "try_phase samples spb_i best phase =
     (let levels = levels_loop samples spb_i phase
      in foldl (try_inverted levels (int phase)) best [False, True])"

definition demod_wav_to_ax25_frames :: "Wav \<Rightarrow> int \<Rightarrow> error + DemodResult" where
  "demod_wav_to_ax25_frames w baud =
     (if sampwidth w \<noteq> 2 then Inl (ValueError ''Expected 16-bit PCM WAV'')
      else if nchannels w \<noteq> 1 then Inl (ValueError ''Expected mono WAV'')
      else
        (let fs = framerate w; pcm = pcm_frames w in
         if baud = 0 then Inl ZeroDivisionError
         else
           (let spb = (of_int fs :: rat) / of_int baud in
            if 1 / 1000000 < \<bar>spb - of_int (py_round spb)\<bar>
            then Inl (ValueError ''Sample rate not an integer multiple of baud'')
            else
              (let spb_i = nat (py_round spb);
                   n = length pcm div 2 in
               if length pcm \<noteq> 2 * n then Inl StructError
               else
                 (let samples = unpack_h pcm;
                      best = foldl (try_phase samples spb_i) None [0..<spb_i]
                  in Inr (case best of
                            Some b \<Rightarrow> b
                          | None \<Rightarrow> \<lparr>frames = [], chosen_phase = 0, inverted = False,
                                       descramble_variant = 0\<rparr>))))))"

text \<open>A 20-byte UI frame: the two addresses of scenario S3, control, PID and four payload bytes.\<close>

definition s4_frame :: bytes where
  "s4_frame =
     [144, 130, 110, 140, 152, 164, 96, 142, 164, 158, 170, 156, 136, 97, 3, 240,
      0x54, 0x4C, 0x00, 0x07]"

section \<open>Robot36 decoder (robot36_decode.py): from the sync chain to the image\<close>

text \<open>
  Everything \<open>decode_robot36\<close> does before it tests the chain (band-pass filter, analytic
  signal, STFT, \<open>_pick_sync_chain\<close>) is floating-point array code; its results enter
  here as parameters: the chain of sync positions, and for a line that starts at
  \<open>sync_start\<close> the byte that \<open>_freq_to_byte(inst_freq[y_idx])\<close> (\<open>ysamp\<close>) and
  \<open>_freq_to_byte(inst_freq[c_idx])\<close> (\<open>csamp\<close>) hold at pixel \<open>k\<close>; \<open>conv\<close> is
  \<open>_ycbcr_to_rgb\<close> on one pixel. An array is the list of its rows; an assignment
  \<open>a[i] = row\<close> is a list update.
\<close>

type_synonym pixel = "byte \<times> byte \<times> byte"

fun fill_lines ::
  "(int \<Rightarrow> nat \<Rightarrow> byte) \<Rightarrow> (int \<Rightarrow> nat \<Rightarrow> byte) \<Rightarrow> nat \<Rightarrow> nat \<Rightarrow> int list \<Rightarrow>
   byte list list \<times> byte list list \<times> byte list list \<Rightarrow>
   byte list list \<times> byte list list \<times> byte list list" where
  "fill_lines ysamp csamp width i [] arrays = arrays"
| "fill_lines ysamp csamp width i (sync_start # chain) (y_lines, cb_lines, cr_lines) =
     (let y_row = map (ysamp sync_start) [0..<width];
          c_row = map (csamp sync_start) [0..<width];
          pair = i div 2
      in if i mod 2 = 0
         then fill_lines ysamp csamp width (i + 1) chain
                (y_lines[i := y_row], cb_lines[pair := c_row], cr_lines)
         else fill_lines ysamp csamp width (i + 1) chain
                (y_lines[i := y_row], cb_lines, cr_lines[pair := c_row]))"

definition ycbcr_row ::
  "(byte \<Rightarrow> byte \<Rightarrow> byte \<Rightarrow> pixel) \<Rightarrow> byte list \<Rightarrow> byte list \<Rightarrow> byte list \<Rightarrow> pixel list" where
  "ycbcr_row conv y cb cr = map (\<lambda>(yv, cbv, crv). conv yv cbv crv) (zip y (zip cb cr))"

definition decode_robot36_image ::
  "(int \<Rightarrow> nat \<Rightarrow> byte) \<Rightarrow> (int \<Rightarrow> nat \<Rightarrow> byte) \<Rightarrow> (byte \<Rightarrow> byte \<Rightarrow> byte \<Rightarrow> pixel) \<Rightarrow>
   int list \<Rightarrow> error + pixel list list" where
  "decode_robot36_image ysamp csamp conv chain =
     (if length chain < 200
      then Inl (RuntimeError ''Could not find a stable Robot36 line sync chain'')
      else
        (let chain240 = take 240 chain;
             width = 320;
             height = 240;
             y0 = replicate height (replicate width 0);
             cb0 = replicate (height div 2) (replicate width 0);
             cr0 = replicate (height div 2) (replicate width 0)
         in case fill_lines ysamp csamp width 0 chain240 (y0, cb0, cr0) of
              (y_lines, cb_lines, cr_lines) \<Rightarrow>
                Inr (concat (map (\<lambda>pair.
                       map (\<lambda>row. ycbcr_row conv (y_lines ! row) (cb_lines ! pair) (cr_lines ! pair))
                         [2 * pair, 2 * pair + 1])
                     [0..<height div 2]))))"

text \<open>An array of \<open>h\<close> rows of \<open>w\<close> entries each.\<close>

definition shaped :: "nat \<Rightarrow> nat \<Rightarrow> 'a list list \<Rightarrow> bool" where
  "shaped h w a = (length a = h \<and> (\<forall>r\<in>set a. length r = w))"

section \<open>Auxiliary notions for the framer and the modem\<close>

text \<open>The flag byte 0x7E as bits, LSB first, and a scan that lists the flag positions from \<open>i\<close> on.\<close>

definition flag_bits :: "int list" where
  "flag_bits = [0, 1, 1, 1, 1, 1, 1, 0]"

fun find_flags :: "nat \<Rightarrow> int list \<Rightarrow> nat list" where
  "find_flags i [] = []"
| "find_flags i (x # xs) =
     (if take 8 (x # xs) = flag_bits then i # find_flags (i + 1) xs
      else find_flags (i + 1) xs)"

text \<open>
  The frame candidate of a pair of flag positions in the words of the specification:
  the bits \<open>[a+8, b)\<close>, at least \<open>8 * (7+7+2+2)\<close> of them, un-stuffed and packed into
  bytes; the last two bytes are the FCS, low byte first; the bytes before them are
  yielded if their CRC-16/X-25 is that FCS.
\<close>

definition spec_candidate :: "int list \<Rightarrow> nat \<Rightarrow> nat \<Rightarrow> bytes option" where
  "spec_candidate bits a b =
     (let cand = take (b - (a + 8)) (drop (a + 8) bits) in
      if length cand < 8 * (7 + 7 + 2 + 2) then None
      else
        (let data = bits_to_bytes_lsb_first (bitunstuff cand);
             body = butlast (butlast data);
             fcs = uint (last (butlast data)) + 256 * uint (last data)
         in if crc16_x25 body = fcs then Some body else None))"

text \<open>
  The bit stream that \<open>mod_ax25_frame_to_wav\<close> scrambles when called with its defaults
  (32 flags, the stuffed frame with its FCS, 8 flags), and modulation followed by
  demodulation, both with their defaults.
\<close>

definition tx_bits :: "bytes \<Rightarrow> int list" where
  "tx_bits frame =
     bytes_to_bits_lsb_first (replicate 32 AX25_FLAG)
     @ bitstuff (bytes_to_bits_lsb_first (frame @ pack_H_le (crc16_x25 frame)))
     @ bytes_to_bits_lsb_first (replicate 8 AX25_FLAG)"

definition modem_roundtrip :: "bytes \<Rightarrow> error + DemodResult" where
  "modem_roundtrip frame = ebind (mod_default frame) (\<lambda>w. demod_wav_to_ax25_frames w 9600)"

text \<open>
  The samples of a level sequence at the default amplitude and five samples per bit, and
  the level decision on consecutive windows of five samples.
\<close>

definition level_val :: "int \<Rightarrow> int" where
  "level_val l = (if l \<noteq> 0 then 20000 else - 20000)"

definition expand5 :: "int list \<Rightarrow> int list" where
  "expand5 levels = concat (map (\<lambda>l. replicate 5 (level_val l)) levels)"

fun levels5 :: "int list \<Rightarrow> int list" where
  "levels5 (a # b # c # d # e # rest) = (if 0 \<le> a + b + c + d + e then 1 else 0) # levels5 rest"
| "levels5 rest = []"

definition pcm5 :: "int list \<Rightarrow> bytes" where
  "pcm5 levels =
     concat (map (\<lambda>l. concat (replicate 5 (if l \<noteq> 0 then [0x20, 0x4E] else [0xE0, 0xB1]))) levels)"

definition bitval :: "int \<Rightarrow> int" where
  "bitval l = (if l \<noteq> 0 then 1 else 0)"

text \<open>The levels that the default modulation of a frame puts on the line.\<close>

definition tx_levels :: "bytes \<Rightarrow> int list" where
  "tx_levels frame = nrzi_encode (g3ruh_scramble (tx_bits frame) 0) 1"

section \<open>Properties of the bit utilities\<close>

lemma and1_cases: "(b::int) AND 1 = 0 \<or> b AND 1 = 1"
  by (simp add: and_one_eq) presburger

lemma and1_idem: "((b::int) AND 1) AND 1 = b AND 1"
  by (simp add: and.assoc)

lemma xor_and1: "(((b::int) AND 1) XOR (t AND 1)) AND 1 = (b AND 1) XOR (t AND 1)"
  using and1_cases [of b] and1_cases [of t] by auto

lemma xor_cancel: "(((b::int) AND 1) XOR t) XOR t = b AND 1"
  by (simp add: xor.assoc)

lemma g3ruh_cross:
  "(v = 0) \<noteq> (w = 0) \<Longrightarrow> g3ruh_loop w l (g3ruh_loop v l xs) = map (\<lambda>b. b AND 1) xs"
proof (induction xs arbitrary: l)
  case Nil
  then show ?case by simp
next
  case (Cons x xs)
  then show ?case
    by (auto simp: Let_def xor_and1 xor_cancel and1_idem)
qed

lemma bit01_and1: "b = 0 \<or> b = 1 \<Longrightarrow> (b::int) AND 1 = b"
  by auto

lemma map_and1_id: "\<forall>b\<in>set xs. b = 0 \<or> b = (1::int) \<Longrightarrow> map (\<lambda>b. b AND 1) xs = xs"
  by (induction xs) auto

lemma unstuff_stuff_loop:
  "\<forall>b\<in>set xs. b = 0 \<or> b = 1 \<Longrightarrow> bitunstuff_loop (bitstuff_loop xs k) k = xs"
proof (induction xs arbitrary: k)
  case Nil
  then show ?case by simp
next
  case (Cons x xs)
  then have x: "x = 0 \<or> x = 1" and xs: "\<forall>b\<in>set xs. b = 0 \<or> b = 1" by auto
  from x show ?case
  proof
    assume "x = 0" then show ?thesis using Cons.IH[OF xs] by simp
  next
    assume "x = 1" then show ?thesis using Cons.IH[OF xs] by simp
  qed
qed

lemma runs_ok_stuff: "k < 5 \<Longrightarrow> runs_ok k (bitstuff_loop xs k)"
proof (induction xs arbitrary: k)
  case Nil
  then show ?case by simp
next
  case (Cons x xs)
  have "x AND 1 = 0 \<or> x AND 1 = 1" by (rule and1_cases)
  then show ?case
  proof
    assume "x AND 1 = 0" then show ?thesis using Cons.IH[of 0] by simp
  next
    assume a: "x AND 1 = 1"
    show ?thesis
    proof (cases "k + 1 = 5")
      case True
      then show ?thesis using a Cons.IH[of 0] by simp
    next
      case False
      then have "k + 1 < 5" using Cons.prems by simp
      then show ?thesis using a False Cons.IH[of "k + 1"] by simp
    qed
  qed
qed

lemma runs_ok_six: "\<not> runs_ok k (replicate 6 1 @ post)"
  by (simp add: numeral_eq_Suc)

lemma runs_ok_no_six: "\<not> runs_ok k (pre @ replicate 6 1 @ post)"
proof (induction pre arbitrary: k)
  case Nil
  show ?case using runs_ok_six by simp
next
  case (Cons a pre)
  then show ?case by simp
qed

lemma byte_bits_01: "\<forall>b\<in>set (bytes_to_bits_lsb_first S). b = 0 \<or> b = 1"
  using and1_cases by (auto simp: bytes_to_bits_lsb_first_def byte_bits_def)

lemma unstuff_stuff:
  "\<forall>b\<in>set xs. b = 0 \<or> b = 1 \<Longrightarrow> bitunstuff (bitstuff xs) = xs"
  by (simp add: bitunstuff_def bitstuff_def unstuff_stuff_loop)

lemma bitstuff_no_six: "\<not> (\<exists>pre post. bitstuff bits = pre @ replicate 6 1 @ post)"
proof
  assume "\<exists>pre post. bitstuff bits = pre @ replicate 6 1 @ post"
  then obtain pre post where e: "bitstuff bits = pre @ replicate 6 1 @ post" by blast
  have "runs_ok 0 (bitstuff bits)" unfolding bitstuff_def by (rule runs_ok_stuff) simp
  then have "runs_ok 0 (pre @ replicate 6 1 @ post)" unfolding e .
  then show False by (rule notE [OF runs_ok_no_six])
qed

text \<open>
  C8. For every byte sequence \<open>S\<close>, un-stuffing the stuffed LSB-first bits of \<open>S\<close> gives
  the bits of \<open>S\<close> back (whatever runs of 1s they hold, so in particular when they hold
  fewer than five in a row); and for every input, of any integers, the output of
  \<open>bitstuff\<close> has no six consecutive 1s anywhere.
\<close>

theorem bitstuff_roundtrip_and_run_bound:
  "bitunstuff (bitstuff (bytes_to_bits_lsb_first S)) = bytes_to_bits_lsb_first S
   \<and> \<not> (\<exists>pre post. bitstuff bits = pre @ replicate 6 1 @ post)"
proof
  show "bitunstuff (bitstuff (bytes_to_bits_lsb_first S)) = bytes_to_bits_lsb_first S"
    by (rule unstuff_stuff) (rule byte_bits_01)
  show "\<not> (\<exists>pre post. bitstuff bits = pre @ replicate 6 1 @ post)"
    by (rule bitstuff_no_six)
qed

text \<open>
  Scrambling with one variant is undone by descrambling with the other one, from the
  first bit on: for every list \<open>B\<close> of bits and variants \<open>v\<close>, \<open>w\<close> of which exactly
  one is 0, \<open>g3ruh_descramble (g3ruh_scramble B v) w = B\<close>.
\<close>

lemma g3ruh_cross_variant_inverse:
  assumes "\<forall>b\<in>set B. b = 0 \<or> b = 1" and "(v = 0) \<noteq> (w = 0)"
  shows "g3ruh_descramble (g3ruh_scramble B v) w = B"
  using assms
  by (simp add: g3ruh_descramble_def g3ruh_scramble_def g3ruh_cross map_and1_id)

text \<open>
  C1. The claim asks that descrambling with the same variant undo scrambling. The code
  does not do that, for either variant: scrambling and then descrambling the stream
  \<open>c1_bits\<close> (a single 1 at index 40, all LFSRs starting from 0) with the same variant
  leaves a second 1 at index 64, far behind the 17 bits that fill the register. The
  routine applied twice with one variant is not the identity.
\<close>

theorem g3ruh_same_variant_counterexample:
  "drop 64 (g3ruh_descramble (g3ruh_scramble c1_bits 0) 0) \<noteq> drop 64 c1_bits
   \<and> drop 64 (g3ruh_descramble (g3ruh_scramble c1_bits 1) 1) \<noteq> drop 64 c1_bits
   \<and> g3ruh_descramble (g3ruh_scramble c1_bits 0) 0 ! 64 = 1
   \<and> g3ruh_descramble (g3ruh_scramble c1_bits 1) 1 ! 64 = 1
   \<and> c1_bits ! 64 = 0"
  by code_simp

section \<open>Properties of the AX.25 codec\<close>

lemma and_127: "(x::int) AND 127 = x mod 128"
proof -
  have "(127::int) = mask 7" by (simp add: mask_eq_exp_minus_1)
  then have "x AND 127 = take_bit 7 x" by (simp add: take_bit_eq_mask)
  then show ?thesis by (simp add: take_bit_eq_mod)
qed

lemma and_15: "(x::int) AND 15 = x mod 16"
proof -
  have "(15::int) = mask 4" by (simp add: mask_eq_exp_minus_1)
  then have "x AND 15 = take_bit 4 x" by (simp add: take_bit_eq_mask)
  then show ?thesis by (simp add: take_bit_eq_mod)
qed

lemma str_upper_id: "list_all is_upper_ascii cs \<Longrightarrow> str_upper cs = map of_char cs"
  by (induction cs) (auto simp: str_upper_def upper_cp_def is_upper_ascii_def)

lemma char_shift_roundtrip_int:
  assumes "0 \<le> x" "x < 128"
  shows "drop_bit 1 (uint (word_of_int (push_bit 1 (x AND 0x7F)) :: byte)) AND 0x7F = x"
proof -
  have a: "x AND 0x7F = x" using assms by (simp add: and_127)
  have "uint (word_of_int (2 * x) :: byte) = (2 * x) mod 256"
    by (simp only: uint_word_of_int_eq take_bit_eq_mod) simp
  also have "\<dots> = 2 * x" using assms by simp
  finally have b: "uint (word_of_int (2 * x) :: byte) = 2 * x" .
  have c: "push_bit 1 x = 2 * x" by (simp add: push_bit_eq_mult)
  show ?thesis
    unfolding a c b using assms by (simp add: drop_bit_eq_div and_127)
qed

lemma char_shift_roundtrip:
  "c < 128 \<Longrightarrow> drop_bit 1 (uint (word_of_int (push_bit 1 (int c AND 0x7F)) :: byte)) AND 0x7F = int c"
  by (rule char_shift_roundtrip_int) simp_all

lemma ssid_roundtrip_all:
  "\<forall>s\<in>set [0..15]. \<forall>l\<in>set [0, 1].
     drop_bit 1 (uint (word_of_int (0x60 OR push_bit 1 (s AND 0x0F) OR l) :: byte)) AND 0x0F = s
     \<and> (uint (word_of_int (0x60 OR push_bit 1 (s AND 0x0F) OR l) :: byte) AND 0x01 \<noteq> 0) = (l = 1)"
  by code_simp

lemma ssid_roundtrip:
  assumes "0 \<le> s" "s \<le> 15"
  shows "drop_bit 1 (uint (word_of_int (0x60 OR push_bit 1 (s AND 0x0F) OR (if l then 1 else 0)) :: byte)) AND 0x0F = s"
    and "(uint (word_of_int (0x60 OR push_bit 1 (s AND 0x0F) OR (if l then 1 else 0)) :: byte) AND 0x01 \<noteq> 0) = l"
proof -
  have s: "s \<in> set [0..15]" using assms by simp
  have l: "(if l then 1 else 0) \<in> set [0, 1::int]" by simp
  show "drop_bit 1 (uint (word_of_int (0x60 OR push_bit 1 (s AND 0x0F) OR (if l then 1 else 0)) :: byte)) AND 0x0F = s"
    using ssid_roundtrip_all s l by blast
  have "(uint (word_of_int (0x60 OR push_bit 1 (s AND 0x0F) OR (if l then 1 else 0)) :: byte) AND 0x01 \<noteq> 0) = ((if l then 1 else 0) = (1::int))"
    using ssid_roundtrip_all s l by blast
  then show "(uint (word_of_int (0x60 OR push_bit 1 (s AND 0x0F) OR (if l then 1 else 0)) :: byte) AND 0x01 \<noteq> 0) = l"
    by simp
qed

lemma rstrip_pad: "cs = [] \<or> last cs \<noteq> CHR '' '' \<Longrightarrow> rstrip_space (cs @ replicate k (CHR '' '')) = cs"
proof -
  assume a: "cs = [] \<or> last cs \<noteq> CHR '' ''"
  have "dropWhile (\<lambda>c. c = CHR '' '') (replicate k (CHR '' '') @ rev cs) = dropWhile (\<lambda>c. c = CHR '' '') (rev cs)"
    by (rule dropWhile_append2) simp
  also have "\<dots> = rev cs"
    using a by (cases "rev cs") (auto simp: last_rev hd_rev)
  finally show ?thesis by (simp add: rstrip_space_def)
qed


lemma char_roundtrip: "char_of (int (of_char c)) = c"
  by (simp only: of_nat_of_char char_of_char)

lemma map_char_roundtrip: "map char_of (map (\<lambda>c. int (of_char c)) xs) = xs"
  by (induction xs) (simp_all only: list.map char_roundtrip)

lemma address_encode_valid:
  assumes "valid_address a"
  shows "address_encode a l =
     Inr (map (\<lambda>c. word_of_int (push_bit 1 (int (of_char c) AND 0x7F)))
              (callsign a @ replicate (6 - length (callsign a)) (CHR '' ''))
          @ [word_of_int (0x60 OR push_bit 1 (ssid a AND 0x0F) OR (if l then 0x01 else 0x00))])"
proof -
  from assms have up: "list_all is_upper_ascii (callsign a)" and len: "length (callsign a) \<le> 6"
    and sid: "0 \<le> ssid a" "ssid a \<le> 15"
    by (simp_all add: valid_address_def valid_callsign_def)
  have u: "str_upper (callsign a) = map of_char (callsign a)" by (rule str_upper_id [OF up])
  have lj: "ljust (map of_char (callsign a)) 6
      = map of_char (callsign a @ replicate (6 - length (callsign a)) (CHR '' ''))"
    by (simp add: ljust_def)
  have asc: "\<forall>c\<in>set (callsign a). (of_char c :: nat) < 128"
    using up by (simp add: list_all_iff is_upper_ascii_def)
  have noerr: "\<not> (\<exists>c\<in>set (ljust (map of_char (callsign a)) 6). (128::nat) \<le> c)"
    using asc by (auto simp: lj)
  show ?thesis
    unfolding address_encode_def u Let_def
    using len sid noerr by (simp add: lj o_def)
qed

lemma address_roundtrip:
  assumes "valid_address a"
  shows "\<exists>e. address_encode a l = Inr e \<and> length e = 7
           \<and> address_decode e = Inr a \<and> address_is_last e = Inr l"
proof -
  let ?cs = "callsign a"
  let ?pad = "?cs @ replicate (6 - length ?cs) (CHR '' '')"
  let ?sh = "map (\<lambda>c. word_of_int (push_bit 1 (int (of_char c) AND 0x7F)) :: byte) ?pad"
  let ?sb = "word_of_int (0x60 OR push_bit 1 (ssid a AND 0x0F) OR (if l then 0x01 else 0x00)) :: byte"
  let ?e = "?sh @ [?sb]"
  from assms have up: "list_all is_upper_ascii ?cs" and len: "length ?cs \<le> 6"
    and ne: "?cs \<noteq> []" and lst: "last ?cs \<noteq> CHR '' ''"
    and sid: "0 \<le> ssid a" "ssid a \<le> 15"
    by (auto simp: valid_address_def valid_callsign_def)
  have enc: "address_encode a l = Inr ?e" by (rule address_encode_valid [OF assms])
  have lsh: "length ?sh = 6" using len by simp
  have le: "length ?e = 7" using lsh by simp
  have asc: "\<forall>c\<in>set ?pad. (of_char c :: nat) < 128"
    using up by (auto simp: list_all_iff is_upper_ascii_def)
  have t6: "take 6 ?e = ?sh" using lsh by simp
  have cps: "map (\<lambda>b. drop_bit 1 (uint b) AND 0x7F) ?sh = map (\<lambda>c. int (of_char c)) ?pad"
  proof -
    have pt: "\<And>c. c \<in> set ?pad \<Longrightarrow>
        ((\<lambda>b. drop_bit 1 (uint b) AND 0x7F) \<circ> (\<lambda>c. word_of_int (push_bit 1 (int (of_char c) AND 0x7F)) :: byte)) c
          = int (of_char c)"
      unfolding o_def using asc char_shift_roundtrip by blast
    show ?thesis
      unfolding map_map by (rule map_cong [OF refl]) (rule pt)
  qed
  have noerr: "\<not> (\<exists>c\<in>set (map (\<lambda>c. int (of_char c)) ?pad). 128 \<le> c)"
  proof -
    have "x < 128" if "x \<in> set (map (\<lambda>c. int (of_char c)) ?pad)" for x
    proof -
      from that obtain c where c: "c \<in> set ?pad" and x: "x = int (of_char c)"
        unfolding set_map by blast
      from c asc have "(of_char c :: nat) < 128" by blast
      with x show ?thesis by linarith
    qed
    then show ?thesis by fastforce
  qed
  have call: "map char_of (map (\<lambda>c. int (of_char c)) ?pad) = ?pad"
    by (rule map_char_roundtrip)
  have strip: "rstrip_space ?pad = ?cs" using lst by (simp add: rstrip_pad)
  have e6: "?e ! 6 = ?sb" using lsh by (simp add: nth_append)
  have dec: "address_decode ?e = Inr \<lparr>callsign = ?cs, ssid = ssid a\<rparr>"
    unfolding address_decode_def Let_def t6 cps call strip e6
    using le noerr ssid_roundtrip(1) [OF sid, of l] by simp
  have il: "address_is_last ?e = Inr l"
    unfolding address_is_last_def e6
    using le ssid_roundtrip(2) [OF sid, of l] by simp
  show ?thesis using enc le dec il by simp
qed

text \<open>
  C4. For every frame whose destination and source callsigns are one to six upper-case
  ASCII characters without a trailing space and whose SSIDs are from 0 to 15 (control
  and PID being bytes), \<open>encode\<close> succeeds and \<open>decode\<close> of its result is the frame
  itself: callsigns, SSIDs, control, PID and payload are all preserved.
\<close>

theorem ax25_roundtrip:
  assumes "valid_address (destination f)" and "valid_address (source f)"
    and "0 \<le> control f" "control f \<le> 255" "0 \<le> pid f" "pid f \<le> 255"
  shows "\<exists>raw. frame_encode f = Inr raw \<and> frame_decode raw = Inr f"
proof -
  obtain d where d: "address_encode (destination f) False = Inr d" "length d = 7"
      "address_decode d = Inr (destination f)"
    using address_roundtrip [OF assms(1), of False] by blast
  obtain s where s: "address_encode (source f) True = Inr s" "length s = 7"
      "address_decode s = Inr (source f)" "address_is_last s = Inr True"
    using address_roundtrip [OF assms(2), of True] by blast
  let ?raw = "(d @ s @ [word_of_int (control f), word_of_int (pid f)]) @ payload f"
  have enc: "frame_encode f = Inr ?raw"
    using d(1) s(1) assms(3-6) by (simp add: frame_encode_def ebind_def)
  have len: "\<not> length ?raw < 7 + 7 + 2" using d(2) s(2) by simp
  have t1: "take 7 ?raw = d" using d(2) by simp
  have t2: "take 7 (drop 7 ?raw) = s" using d(2) s(2) by simp
  have c: "uint (?raw ! 14) = control f"
    using d(2) s(2) assms(3,4) by (simp add: nth_append uint_word_of_int_eq take_bit_eq_mod)
  have p: "uint (?raw ! 15) = pid f"
    using d(2) s(2) assms(5,6) by (simp add: nth_append uint_word_of_int_eq take_bit_eq_mod)
  have pl: "drop 16 ?raw = payload f" using d(2) s(2) by simp
  have "frame_decode ?raw = Inr \<lparr>destination = destination f, source = source f,
      control = control f, pid = pid f, payload = payload f\<rparr>"
    unfolding frame_decode_def Let_def t1 t2 c p pl
    using len d(3) s(3,4) by (simp add: ebind_def)
  then have "frame_decode ?raw = Inr f" by simp
  with enc show ?thesis by blast
qed

theorem ax25_roundtrip_witness:
  "valid_address (destination s3_frame) \<and> valid_address (source s3_frame)
   \<and> 0 \<le> control s3_frame \<and> control s3_frame \<le> 255
   \<and> 0 \<le> pid s3_frame \<and> pid s3_frame \<le> 255
   \<and> (\<exists>raw. frame_encode s3_frame = Inr raw \<and> frame_decode raw = Inr s3_frame)"
proof -
  have h1: "valid_address (destination s3_frame)" by code_simp
  have h2: "valid_address (source s3_frame)" by code_simp
  have h3: "0 \<le> control s3_frame" "control s3_frame \<le> 255"
    and h4: "0 \<le> pid s3_frame" "pid s3_frame \<le> 255"
    by (simp_all add: s3_frame_def)
  show ?thesis
    using h1 h2 h3 h4 ax25_roundtrip [OF h1 h2 h3 h4] by blast
qed

lemma address_decode_total:
  assumes "length addr7 = 7"
  shows "\<exists>a. address_decode addr7 = Inr a \<and> 0 \<le> ssid a \<and> ssid a \<le> 15"
proof -
  have "\<not> (\<exists>c\<in>set (map (\<lambda>b. drop_bit 1 (uint b) AND 0x7F) (take 6 addr7)). (128::int) \<le> c)"
    by (auto simp: and_127)
  then show ?thesis
    using assms unfolding address_decode_def Let_def
    by (simp add: and_15)
qed

text \<open>
  C10. \<open>AX25Frame.decode\<close> never raises on a byte string of at least 16 bytes whose byte
  13 has its low bit set: the ASCII decoding of both callsigns succeeds, both SSIDs are
  from 0 to 15, and control, PID and payload are the bytes 14, 15 and 16 onwards.
\<close>

theorem frame_decode_total:
  assumes "16 \<le> length raw" and "uint (raw ! 13) AND 1 = 1"
  shows "\<exists>f. frame_decode raw = Inr f
           \<and> 0 \<le> ssid (destination f) \<and> ssid (destination f) \<le> 15
           \<and> 0 \<le> ssid (source f) \<and> ssid (source f) \<le> 15
           \<and> control f = uint (raw ! 14) \<and> pid f = uint (raw ! 15)
           \<and> payload f = drop 16 raw"
proof -
  have l1: "length (take 7 raw) = 7" using assms(1) by simp
  have l2: "length (take 7 (drop 7 raw)) = 7" using assms(1) by simp
  obtain d where d: "address_decode (take 7 raw) = Inr d" "0 \<le> ssid d" "ssid d \<le> 15"
    using address_decode_total [OF l1] by blast
  obtain s where s: "address_decode (take 7 (drop 7 raw)) = Inr s" "0 \<le> ssid s" "ssid s \<le> 15"
    using address_decode_total [OF l2] by blast
  have n: "take 7 (drop 7 raw) ! 6 = raw ! 13" using assms(1) by simp
  have il: "address_is_last (take 7 (drop 7 raw)) = Inr True"
    unfolding address_is_last_def n using l2 assms(2) by simp
  have "frame_decode raw = Inr \<lparr>destination = d, source = s, control = uint (raw ! 14),
      pid = uint (raw ! 15), payload = drop 16 raw\<rparr>"
    unfolding frame_decode_def Let_def il d(1) s(1)
    using assms(1) by (simp add: ebind_def)
  then show ?thesis using d s by simp
qed

theorem frame_decode_total_witness:
  "16 \<le> length (replicate 13 (0xFF :: byte) @ [0x01, 0xFF, 0xFF, 0x2A])
   \<and> uint ((replicate 13 (0xFF :: byte) @ [0x01, 0xFF, 0xFF, 0x2A]) ! 13) AND 1 = 1
   \<and> (\<exists>f. frame_decode (replicate 13 0xFF @ [0x01, 0xFF, 0xFF, 0x2A]) = Inr f
          \<and> control f = 255 \<and> pid f = 255 \<and> payload f = [0x2A])"
proof -
  let ?raw = "replicate 13 (0xFF :: byte) @ [0x01, 0xFF, 0xFF, 0x2A]"
  have h1: "16 \<le> length ?raw" by simp
  have h2: "uint (?raw ! 13) AND 1 = 1" by code_simp
  have e: "uint (?raw ! 14) = 255" "uint (?raw ! 15) = 255" "drop 16 ?raw = [0x2A]"
    by code_simp+
  show ?thesis
    using h1 h2 frame_decode_total [OF h1 h2] unfolding e by blast
qed

section \<open>Properties of the telemetry and telecommand codec\<close>

lemma take_buf_ok: "offset + n \<le> length buf \<Longrightarrow> take_buf buf offset n = Inr (take n (drop offset buf), offset + n)"
  by (simp add: take_buf_def)

lemma take_buf_short: "length buf < offset + n \<Longrightarrow> take_buf buf offset n = Inl (DecodeError ''Truncated payload'')"
  by (simp add: take_buf_def)

lemmas readers = read_u8_def read_u16be_def read_u32be_def read_i16be_def read_i64be_def

lemma decode_short2:
  "length p < 2 \<Longrightarrow> decode_telemetry p = Inl (DecodeError ''Truncated payload'')"
  by (simp add: decode_telemetry_def readers take_buf_short ebind_def)

lemma decode_bad_type:
  "2 \<le> length p \<Longrightarrow> be_uint (take 2 p) \<noteq> 0x544C \<Longrightarrow>
     decode_telemetry p = Inl (DecodeError ''Not a TL telemetry packet'')"
  by (simp add: decode_telemetry_def readers take_buf_ok ebind_def)

lemma decode_short40:
  "2 \<le> length p \<Longrightarrow> be_uint (take 2 p) = 0x544C \<Longrightarrow> length p < 40 \<Longrightarrow>
     decode_telemetry p = Inl (DecodeError ''Truncated payload'')"
  by (simp add: decode_telemetry_def readers read_lp_string_def take_buf_def ebind_def Let_def split: option.splits)

lemma decode_long:
  assumes "40 \<le> length p" "be_uint (take 2 p) = 0x544C"
  shows "decode_telemetry p =
     (if length p < 40 + unat (p ! 39) then Inl (DecodeError ''Truncated payload'')
      else Inr \<lparr>sequence = be_uint (take 4 (drop 2 p)),
            timestamp = be_sint (take 8 (drop 6 p)),
            uptime = be_uint (take 4 (drop 14 p)),
            boot_count = be_uint (take 4 (drop 18 p)),
            restart_reason = uint (p ! 22), mode = uint (p ! 23), flags = uint (p ! 24),
            battery_voltages_mv = (be_uint (take 2 (drop 25 p)), be_uint (take 2 (drop 27 p)), be_uint (take 2 (drop 29 p))),
            battery_currents_ma = (be_uint (take 2 (drop 31 p)), be_uint (take 2 (drop 33 p)), be_uint (take 2 (drop 35 p))),
            temperature_c = of_int (be_sint (take 2 (drop 37 p))) / 10,
            motd = (case utf8_decode (map unat (take (unat (p ! 39)) (drop 40 p))) of
                      Some s \<Rightarrow> s
                    | None \<Rightarrow> latin1_decode (take (unat (p ! 39)) (drop 40 p)))\<rparr>)"
proof -
  have two: "Suc (Suc 0) = 2" by simp
  show ?thesis
    using assms
    by (simp add: decode_telemetry_def readers read_lp_string_def take_buf_def ebind_def Let_def
        two split: option.splits)
qed


text \<open>
  C6. \<open>decode_telemetry\<close> fails exactly when the payload is shorter than the 40 bytes of
  the fixed fields and the length byte, or shorter than those plus the message of the
  day that the length byte (byte 39) announces, or when its first two bytes are not
  0x544C; the error is then one of the two DecodeErrors. Otherwise it returns a
  record whose message of the day is the UTF-8 decoding of its bytes or, when they
  are not UTF-8, the Latin-1 decoding, one code point per byte with the byte's value.
\<close>

theorem decode_telemetry_failures:
  "isl (decode_telemetry p) =
     (length p < 40 \<or> length p < 40 + unat (p ! 39) \<or> be_uint (take 2 p) \<noteq> 0x544C)
   \<and> (case decode_telemetry p of
        Inl e \<Rightarrow>
          e = DecodeError ''Truncated payload'' \<or> e = DecodeError ''Not a TL telemetry packet''
      | Inr t \<Rightarrow>
          (case utf8_decode (map unat (take (unat (p ! 39)) (drop 40 p))) of
             Some s \<Rightarrow> motd t = s
           | None \<Rightarrow> motd t = map unat (take (unat (p ! 39)) (drop 40 p))
                      \<and> length (motd t) = unat (p ! 39)))"
proof -
  consider (a) "length p < 2"
    | (b) "2 \<le> length p" "be_uint (take 2 p) \<noteq> 0x544C"
    | (c) "2 \<le> length p" "be_uint (take 2 p) = 0x544C" "length p < 40"
    | (d) "40 \<le> length p" "be_uint (take 2 p) = 0x544C" "length p < 40 + unat (p ! 39)"
    | (e) "40 \<le> length p" "be_uint (take 2 p) = 0x544C" "\<not> length p < 40 + unat (p ! 39)"
    by linarith
  then show ?thesis
  proof cases
    case a
    then show ?thesis by (simp add: decode_short2)
  next
    case b
    then show ?thesis by (simp add: decode_bad_type)
  next
    case c
    then show ?thesis by (simp add: decode_short40)
  next
    case d
    then show ?thesis by (simp add: decode_long)
  next
    case e
    then show ?thesis
      by (simp add: decode_long latin1_decode_def split: option.splits)
  qed
qed

theorem decode_telemetry_failures_witness:
  "\<not> isl (decode_telemetry s1_payload_bad_utf8)
   \<and> isl (decode_telemetry (take 43 s1_payload))
   \<and> isl (decode_telemetry (0 # tl s1_payload))"
proof -
  have a: "\<not> (length s1_payload_bad_utf8 < 40
        \<or> length s1_payload_bad_utf8 < 40 + unat (s1_payload_bad_utf8 ! 39)
        \<or> be_uint (take 2 s1_payload_bad_utf8) \<noteq> 0x544C)"
    by code_simp
  have b: "length (take 43 s1_payload) < 40 + unat (take 43 s1_payload ! 39)"
    by code_simp
  have c: "be_uint (take 2 (0 # tl s1_payload)) \<noteq> 0x544C"
    by code_simp
  show ?thesis
    using a b c decode_telemetry_failures [of s1_payload_bad_utf8]
      decode_telemetry_failures [of "take 43 s1_payload"]
      decode_telemetry_failures [of "0 # tl s1_payload"]
    by blast
qed

lemma build_in_range:
  assumes "0 \<le> ct" "ct \<le> 0xFFFF" "0 \<le> sq" "sq \<le> 0xFFFFFFFF"
  shows "build_telecommand mac ct sq pl = Inr ((pack_HI ct sq @ pl) @ mac (pack_HI ct sq @ pl))"
  using assms by (simp add: build_telecommand_def)


lemma verify_split:
  assumes "length m = 32" "6 \<le> length body"
  shows "verify_telecommand mac (body @ m) = (if m \<noteq> mac body then Some ''Bad HMAC'' else None)"
  using assms by (simp add: verify_telecommand_def)

lemma verify_short:
  "length q < 2 + 4 + 32 \<Longrightarrow> verify_telecommand mac q = Some ''Telecommand too short''"
  by (simp add: verify_telecommand_def)








text \<open>
  What a changed byte does to a packet \<open>body @ m\<close> whose tag \<open>m\<close> is the MAC of the
  body: a changed tag byte is always rejected; a changed body byte is rejected exactly
  when the MAC of the changed body is not the old tag.
\<close>

lemma flip_tag:
  assumes m: "length m = 32" and b: "6 \<le> length body" and e: "m = mac body"
    and i: "length body \<le> i" "i < length (body @ m)" and x: "x \<noteq> (body @ m) ! i"
  shows "verify_telecommand mac ((body @ m)[i := x]) = Some ''Bad HMAC''"
proof -
  let ?j = "i - length body"
  have j: "?j < length m" using i by simp
  have upd: "(body @ m)[i := x] = body @ m[?j := x]"
    using i by (simp add: list_update_append)
  have "(body @ m) ! i = m ! ?j" using i by (simp add: nth_append)
  with x have "m[?j := x] ! ?j \<noteq> m ! ?j" using j by simp
  then have ne: "m[?j := x] \<noteq> mac body" using e by auto
  have "length (m[?j := x]) = 32" using m by simp
  from verify_split [OF this b] ne show ?thesis unfolding upd by simp
qed

lemma flip_body:
  assumes m: "length m = 32" and b: "6 \<le> length body" and e: "m = mac body"
    and i: "i < length body"
  shows "verify_telecommand mac ((body @ m)[i := x]) =
           (if mac (body[i := x]) \<noteq> mac body then Some ''Bad HMAC'' else None)"
proof -
  have upd: "(body @ m)[i := x] = body[i := x] @ m"
    using i by (simp add: list_update_append)
  have "6 \<le> length (body[i := x])" using b by simp
  from verify_split [OF m this] show ?thesis unfolding upd using e by auto
qed

section \<open>Properties of the HDLC framer\<close>

lemma length_bits_to_bytes_loop:
  "n < 8 \<Longrightarrow> length (bits_to_bytes_loop bits acc n) = (length bits + n) div 8"
proof (induction bits arbitrary: acc n)
  case Nil
  then show ?case by simp
next
  case (Cons b bits)
  show ?case
  proof (cases "n = 7")
    case True
    have "bits_to_bytes_loop (b # bits) acc n
        = word_of_int (acc OR push_bit n (b AND 1)) # bits_to_bytes_loop bits 0 0"
      using True by (simp add: Let_def)
    then have "length (bits_to_bytes_loop (b # bits) acc n) = Suc (length bits div 8)"
      using Cons.IH [of 0 0] by simp
    also have "\<dots> = (length (b # bits) + n) div 8" using True by simp
    finally show ?thesis .
  next
    case False
    then have n: "n + 1 < 8" using Cons.prems by simp
    have "bits_to_bytes_loop (b # bits) acc n
        = bits_to_bytes_loop bits (acc OR push_bit n (b AND 1)) (n + 1)"
      using False n by (simp add: Let_def)
    then have "length (bits_to_bytes_loop (b # bits) acc n) = (length bits + (n + 1)) div 8"
      using Cons.IH [OF n] by simp
    also have "\<dots> = (length (b # bits) + n) div 8" by simp
    finally show ?thesis .
  qed
qed

lemma length_bits_to_bytes: "length (bits_to_bytes_lsb_first bits) = length bits div 8"
  by (simp add: bits_to_bytes_lsb_first_def length_bits_to_bytes_loop)

lemma length_bitunstuff_loop: "length bits \<le> 2 * length (bitunstuff_loop bits k)"
proof (induction "length bits" arbitrary: bits k rule: less_induct)
  case less
  show ?case
  proof (cases bits)
    case Nil
    then show ?thesis by simp
  next
    case (Cons b rest)
    note b = Cons
    have len: "length bits = Suc (length rest)" by (simp add: b)
    show ?thesis
    proof (cases "b = 1 \<and> k + 1 = 5")
      case False
      then have "\<exists>k'. bitunstuff_loop bits k = b # bitunstuff_loop rest k'"
        unfolding b by auto
      then obtain k' where e: "bitunstuff_loop bits k = b # bitunstuff_loop rest k'" by blast
      have "length rest \<le> 2 * length (bitunstuff_loop rest k')"
        by (rule less) (simp add: b)
      then show ?thesis by (simp add: e len)
    next
      case True
      show ?thesis
      proof (cases rest)
        case Nil
        then show ?thesis unfolding b using True by simp
      next
        case (Cons n rest')
        show ?thesis
        proof (cases "n = 0")
          case z: True
          have e: "bitunstuff_loop bits k = b # bitunstuff_loop rest' 0"
            unfolding b Cons using True z by simp
          have "length rest' \<le> 2 * length (bitunstuff_loop rest' 0)"
            by (rule less) (simp add: b Cons)
          then show ?thesis by (simp add: e len Cons)
        next
          case nz: False
          have e: "bitunstuff_loop bits k = b # bitunstuff_loop rest 0"
            unfolding b Cons using True nz by simp
          have "length rest \<le> 2 * length (bitunstuff_loop rest 0)"
            by (rule less) (simp add: b)
          then show ?thesis by (simp add: e len)
        qed
      qed
    qed
  qed
qed

lemma length_bitunstuff: "length bits \<le> 2 * length (bitunstuff bits)"
  by (simp add: bitunstuff_def length_bitunstuff_loop)

lemma fcs_le_value: "uint (lo :: byte) OR push_bit 8 (uint (hi :: byte)) = uint lo + 256 * uint hi"
proof -
  have "uint lo = take_bit 8 (uint lo)"
    using uint_lt2p [of lo] by (simp add: take_bit_int_eq_self)
  moreover have "take_bit 8 (uint lo) AND push_bit 8 (uint hi) = 0"
    by (rule bit_eqI) (simp add: bit_simps)
  ultimately have "uint lo AND push_bit 8 (uint hi) = 0" by simp
  then have "uint lo + push_bit 8 (uint hi) = uint lo OR push_bit 8 (uint hi)"
    by (rule disjunctive_add_eq_or)
  then show ?thesis by (simp add: push_bit_eq_mult)
qed

lemma last_two:
  assumes "2 \<le> length data"
  shows "take (length data - 2) data = butlast (butlast data)"
    and "drop (length data - 2) data ! 0 = last (butlast data)"
    and "drop (length data - 2) data ! 1 = last data"
proof -
  have "1 \<le> length (butlast data)" using assms by simp
  then have "butlast data \<noteq> []" by (cases "butlast data") simp_all
  moreover have "data \<noteq> []" using assms by (cases data) simp_all
  ultimately have ne: "data \<noteq> []" "butlast data \<noteq> []" by simp_all
  define xs where "xs = butlast (butlast data)"
  define x where "x = last (butlast data)"
  define y where "y = last data"
  have "data = butlast data @ [y]" using ne(1) by (simp add: y_def)
  moreover have "butlast data = xs @ [x]" using ne(2) by (simp add: xs_def x_def)
  ultimately have d: "data = xs @ [x, y]" by simp
  have len: "length data - 2 = length xs" by (subst d) simp
  show "take (length data - 2) data = butlast (butlast data)"
    unfolding len xs_def [symmetric] by (subst d) simp
  show "drop (length data - 2) data ! 0 = last (butlast data)"
    unfolding len x_def [symmetric] by (subst d) simp
  show "drop (length data - 2) data ! 1 = last data"
    unfolding len y_def [symmetric] by (subst d) simp
qed

lemma frame_candidate_spec: "frame_candidate bits a b = spec_candidate bits a b"
proof -
  define p where "p = take (b - (a + 8)) (drop (a + 8) bits)"
  define data where "data = bits_to_bytes_lsb_first (bitunstuff p)"
  have fc: "frame_candidate bits a b =
      (if b \<le> a + 8 then None
       else if length p < 144 then None
       else if length data < 2 then None
       else if uint (drop (length data - 2) data ! 0) OR push_bit 8 (uint (drop (length data - 2) data ! 1))
                 \<noteq> crc16_x25 (take (length data - 2) data) then None
       else Some (take (length data - 2) data))"
    unfolding frame_candidate_def Let_def p_def [symmetric] data_def [symmetric] by simp
  have sc: "spec_candidate bits a b =
      (if length p < 144 then None
       else if crc16_x25 (butlast (butlast data)) = uint (last (butlast data)) + 256 * uint (last data)
       then Some (butlast (butlast data)) else None)"
    unfolding spec_candidate_def Let_def p_def [symmetric] data_def [symmetric] by simp
  show ?thesis
  proof (cases "length p < 144")
    case True
    then show ?thesis unfolding fc sc by simp
  next
    case False
    then have l: "144 \<le> length p" by simp
    have "length p \<le> b - (a + 8)" unfolding p_def by simp
    with l have ab: "\<not> b \<le> a + 8" by linarith
    have "144 \<le> 2 * length (bitunstuff p)" using l length_bitunstuff [of p] by linarith
    then have d: "2 \<le> length data" unfolding data_def by (simp add: length_bits_to_bytes)
    then have d': "\<not> length data < 2" by simp
    show ?thesis
      unfolding fc sc last_two [OF d] fcs_le_value
      using False ab d' by (simp add: eq_commute)
  qed
qed

lemma frames_loop_map_filter:
  "frames_loop bits pairs = List.map_filter (\<lambda>(a, b). frame_candidate bits a b) pairs"
  by (induction pairs) (auto simp: List.map_filter_simps split: option.splits)

lemma extract_spec:
  "extract_hdlc_frames bits =
     List.map_filter (\<lambda>(a, b). spec_candidate bits a b)
       (zip (flag_positions bits) (tl (flag_positions bits)))"
  by (simp add: extract_hdlc_frames_def Let_def frames_loop_map_filter frame_candidate_spec)

lemma flag_bits_eq: "bytes_to_bits_lsb_first [AX25_FLAG] = flag_bits"
  by code_simp

lemma length_flag_bits: "length flag_bits = 8"
  by (simp add: flag_bits_def)

lemma find_flags_filter:
  "find_flags k bits =
     map (\<lambda>i. i + k) (filter (\<lambda>i. take 8 (drop i bits) = flag_bits) [0..<length bits + 1 - 8])"
proof (induction bits arbitrary: k)
  case Nil
  then show ?case by simp
next
  case (Cons x xs)
  show ?case
  proof (cases "length xs < 7")
    case True
    then have e1: "length (x # xs) + 1 - 8 = 0" and e2: "length xs + 1 - 8 = 0" by simp_all
    have "length (take 8 (x # xs)) \<noteq> length flag_bits"
      using True by (simp add: length_flag_bits)
    then have nf: "take 8 (x # xs) \<noteq> flag_bits" by metis
    have "find_flags k (x # xs) = find_flags (k + 1) xs" using nf by simp
    also have "\<dots> = []" unfolding Cons.IH e2 by simp
    finally show ?thesis unfolding e1 by simp
  next
    case False
    define n where "n = length xs + 1 - 8"
    have e1: "length (x # xs) + 1 - 8 = Suc n" using False by (simp add: n_def)
    have up: "[0..<Suc n] = 0 # map Suc [0..<n]"
      by (simp add: upt_conv_Cons map_Suc_upt del: upt_Suc)
    have ih: "find_flags (k + 1) xs =
        map (\<lambda>i. i + (k + 1)) (filter (\<lambda>i. take 8 (drop i xs) = flag_bits) [0..<n])"
      unfolding n_def by (rule Cons.IH)
    have f: "filter (\<lambda>i. take 8 (drop i (x # xs)) = flag_bits) (map Suc [0..<n])
        = map Suc (filter (\<lambda>i. take 8 (drop i xs) = flag_bits) [0..<n])"
      by (simp add: filter_map o_def)
    show ?thesis
      unfolding e1 up
      by (simp only: find_flags.simps filter.simps f ih drop_0 list.map map_map o_def
            split: if_splits) simp
  qed
qed

lemma flag_positions_find: "flag_positions bits = find_flags 0 bits"
  unfolding flag_positions_def Let_def flag_bits_eq length_flag_bits find_flags_filter
  by simp

lemma spec_candidate_Some:
  assumes "spec_candidate bits a b = Some f"
  shows "8 * (7 + 7 + 2 + 2) \<le> b - (a + 8)
         \<and> (\<exists>lo hi. bits_to_bytes_lsb_first (bitunstuff (take (b - (a + 8)) (drop (a + 8) bits)))
                        = f @ [lo, hi]
                     \<and> crc16_x25 f = uint lo + 256 * uint hi)"
proof -
  define p where "p = take (b - (a + 8)) (drop (a + 8) bits)"
  define data where "data = bits_to_bytes_lsb_first (bitunstuff p)"
  have sc: "spec_candidate bits a b =
      (if length p < 144 then None
       else if crc16_x25 (butlast (butlast data)) = uint (last (butlast data)) + 256 * uint (last data)
       then Some (butlast (butlast data)) else None)"
    unfolding spec_candidate_def Let_def p_def [symmetric] data_def [symmetric] by simp
  from assms have l: "144 \<le> length p"
    and f: "f = butlast (butlast data)"
    and c: "crc16_x25 (butlast (butlast data)) = uint (last (butlast data)) + 256 * uint (last data)"
    unfolding sc by (auto split: if_splits)
  have "length p \<le> b - (a + 8)" unfolding p_def by simp
  with l have g: "8 * (7 + 7 + 2 + 2) \<le> b - (a + 8)" by simp
  have "144 \<le> 2 * length (bitunstuff p)" using l length_bitunstuff [of p] by linarith
  then have d: "2 \<le> length data" unfolding data_def by (simp add: length_bits_to_bytes)
  have "1 \<le> length (butlast data)" using d by simp
  then have n2: "butlast data \<noteq> []" by (cases "butlast data") simp_all
  have n1: "data \<noteq> []" using d by (cases data) simp_all
  define x where "x = last (butlast data)"
  define y where "y = last data"
  have e2: "butlast data = f @ [x]" unfolding f x_def using n2 by simp
  have "data = butlast data @ [y]" unfolding y_def using n1 by simp
  also have "\<dots> = (f @ [x]) @ [y]"
    by (rule arg_cong [where f = "\<lambda>z. z @ [y]"]) (rule e2)
  finally have dd: "data = f @ [x, y]" by simp
  have cc: "crc16_x25 f = uint x + 256 * uint y" using c unfolding f x_def y_def .
  from dd cc have "\<exists>lo hi. data = f @ [lo, hi] \<and> crc16_x25 f = uint lo + 256 * uint hi"
    by blast
  with g show ?thesis unfolding data_def p_def by blast
qed

lemma set_map_filter: "f \<in> set (List.map_filter g ps) \<longleftrightarrow> (\<exists>p\<in>set ps. g p = Some f)"
  by (induction ps) (auto simp: List.map_filter_simps split: option.splits)

text \<open>
  C7. The frames that \<open>_extract_hdlc_frames\<close> yields are exactly, and in order, those
  that the adjacent pairs \<open>(a, b)\<close> of flag positions give as the specification
  describes: the bits \<open>[a+8, b)\<close>, considered only when there are at least
  \<open>8 * (7+7+2+2)\<close> of them, un-stuffed and packed into bytes, yielded without their last
  two bytes if and only if the CRC-16/X-25 of what precedes equals those two bytes
  read low byte first; every other candidate is dropped. So every frame yielded is
  CRC-valid.
\<close>

theorem extract_hdlc_frames_crc_valid:
  "extract_hdlc_frames bits =
     List.map_filter (\<lambda>(a, b). spec_candidate bits a b)
       (zip (flag_positions bits) (tl (flag_positions bits)))
   \<and> (\<forall>f\<in>set (extract_hdlc_frames bits).
        \<exists>a b lo hi. (a, b) \<in> set (zip (flag_positions bits) (tl (flag_positions bits)))
          \<and> 8 * (7 + 7 + 2 + 2) \<le> b - (a + 8)
          \<and> bits_to_bytes_lsb_first (bitunstuff (take (b - (a + 8)) (drop (a + 8) bits)))
              = f @ [lo, hi]
          \<and> crc16_x25 f = uint lo + 256 * uint hi)"
proof
  show "extract_hdlc_frames bits =
     List.map_filter (\<lambda>(a, b). spec_candidate bits a b)
       (zip (flag_positions bits) (tl (flag_positions bits)))"
    by (rule extract_spec)
  show "\<forall>f\<in>set (extract_hdlc_frames bits).
        \<exists>a b lo hi. (a, b) \<in> set (zip (flag_positions bits) (tl (flag_positions bits)))
          \<and> 8 * (7 + 7 + 2 + 2) \<le> b - (a + 8)
          \<and> bits_to_bytes_lsb_first (bitunstuff (take (b - (a + 8)) (drop (a + 8) bits)))
              = f @ [lo, hi]
          \<and> crc16_x25 f = uint lo + 256 * uint hi"
  proof
    fix f assume "f \<in> set (extract_hdlc_frames bits)"
    then obtain a b where ab: "(a, b) \<in> set (zip (flag_positions bits) (tl (flag_positions bits)))"
      and s: "spec_candidate bits a b = Some f"
      unfolding extract_spec set_map_filter by auto
    from spec_candidate_Some [OF s] ab
    show "\<exists>a b lo hi. (a, b) \<in> set (zip (flag_positions bits) (tl (flag_positions bits)))
          \<and> 8 * (7 + 7 + 2 + 2) \<le> b - (a + 8)
          \<and> bits_to_bytes_lsb_first (bitunstuff (take (b - (a + 8)) (drop (a + 8) bits)))
              = f @ [lo, hi]
          \<and> crc16_x25 f = uint lo + 256 * uint hi"
      by blast
  qed
qed

lemma extract_tx_s4: "extract_hdlc_frames (tx_bits s4_frame) = [s4_frame]"
  unfolding extract_hdlc_frames_def flag_positions_find Let_def
  by code_simp

theorem extract_hdlc_frames_crc_valid_witness:
  "extract_hdlc_frames (tx_bits s4_frame) = [s4_frame]
   \<and> (\<exists>a b lo hi.
         (a, b) \<in> set (zip (flag_positions (tx_bits s4_frame)) (tl (flag_positions (tx_bits s4_frame))))
         \<and> 8 * (7 + 7 + 2 + 2) \<le> b - (a + 8)
         \<and> bits_to_bytes_lsb_first
             (bitunstuff (take (b - (a + 8)) (drop (a + 8) (tx_bits s4_frame))))
             = s4_frame @ [lo, hi]
         \<and> crc16_x25 s4_frame = uint lo + 256 * uint hi)"
proof -
  have m: "s4_frame \<in> set (extract_hdlc_frames (tx_bits s4_frame))"
    unfolding extract_tx_s4 by simp
  from extract_hdlc_frames_crc_valid [of "tx_bits s4_frame"] m extract_tx_s4
  show ?thesis by blast
qed

section \<open>Properties of the Robot36 image assembly\<close>

lemma shaped_update: "shaped h w a \<Longrightarrow> length r = w \<Longrightarrow> shaped h w (a[i := r])"
  unfolding shaped_def using set_update_subset_insert [of a i r] by auto

lemma shaped_replicate: "shaped h w (replicate h (replicate w x))"
  by (simp add: shaped_def)

lemma shaped_nth: "shaped h w a \<Longrightarrow> i < h \<Longrightarrow> length (a ! i) = w"
  by (simp add: shaped_def)

lemma fill_lines_shaped:
  assumes "shaped h w y" "shaped h2 w cb" "shaped h2 w cr"
    and "fill_lines ysamp csamp w i chain (y, cb, cr) = (y', cb', cr')"
  shows "shaped h w y' \<and> shaped h2 w cb' \<and> shaped h2 w cr'"
  using assms
proof (induction chain arbitrary: i y cb cr)
  case Nil
  then show ?case by simp
next
  case (Cons s chain)
  let ?yr = "map (ysamp s) [0..<w]" and ?cr = "map (csamp s) [0..<w]"
  have y: "shaped h w (y[i := ?yr])" by (rule shaped_update [OF Cons.prems(1)]) simp
  show ?case
  proof (cases "i mod 2 = 0")
    case True
    have c: "shaped h2 w (cb[i div 2 := ?cr])" by (rule shaped_update [OF Cons.prems(2)]) simp
    from Cons.prems(4) True
    have "fill_lines ysamp csamp w (i + 1) chain (y[i := ?yr], cb[i div 2 := ?cr], cr) = (y', cb', cr')"
      by (simp add: Let_def)
    from Cons.IH [OF y c Cons.prems(3) this] show ?thesis .
  next
    case False
    have c: "shaped h2 w (cr[i div 2 := ?cr])" by (rule shaped_update [OF Cons.prems(3)]) simp
    from Cons.prems(4) False
    have "fill_lines ysamp csamp w (i + 1) chain (y[i := ?yr], cb, cr[i div 2 := ?cr]) = (y', cb', cr')"
      by (simp add: Let_def)
    from Cons.IH [OF y Cons.prems(2) c this] show ?thesis .
  qed
qed

lemma length_ycbcr_row:
  "length y = w \<Longrightarrow> length cb = w \<Longrightarrow> length cr = w \<Longrightarrow> length (ycbcr_row conv y cb cr) = w"
  by (simp add: ycbcr_row_def)

lemma image_shape:
  fixes conv :: "byte \<Rightarrow> byte \<Rightarrow> byte \<Rightarrow> pixel"
  assumes y: "shaped 240 320 y" and cb: "shaped 120 320 cb" and cr: "shaped 120 320 cr"
  defines "img \<equiv> concat (map (\<lambda>pair.
                       map (\<lambda>row. ycbcr_row conv (y ! row) (cb ! pair) (cr ! pair))
                         [2 * pair, 2 * pair + 1])
                     [0..<240 div 2])"
  shows "length img = 240 \<and> (\<forall>row\<in>set img. length row = 320)"
proof
  show "length img = 240"
    unfolding img_def by (simp add: length_concat o_def sum_list_triv)
  show "\<forall>row\<in>set img. length row = 320"
  proof
    fix row assume "row \<in> set img"
    then have "\<exists>pair r. pair < 120 \<and> (r = 2 * pair \<or> r = 2 * pair + 1)
        \<and> row = ycbcr_row conv (y ! r) (cb ! pair) (cr ! pair)"
      unfolding img_def by fastforce
    then obtain pair r where p: "pair < 120" and r: "r = 2 * pair \<or> r = 2 * pair + 1"
      and row: "row = ycbcr_row conv (y ! r) (cb ! pair) (cr ! pair)"
      by blast
    from p r have "r < 240" by auto
    then have "length (y ! r) = 320" using shaped_nth [OF y] by simp
    moreover have "length (cb ! pair) = 320" using shaped_nth [OF cb p] .
    moreover have "length (cr ! pair) = 320" using shaped_nth [OF cr p] .
    ultimately show "length row = 320" unfolding row by (rule length_ycbcr_row)
  qed
qed

text \<open>
  C9. Whenever the chain of line syncs has fewer than 200 entries, \<open>decode_robot36\<close>
  raises the RuntimeError that says so; whenever the chain has at least 200, the image
  it saves has exactly 240 rows of exactly 320 pixels each, whatever the samples are.
\<close>

theorem robot36_sync_failure_and_shape:
  "(length chain < 200 \<longrightarrow>
      decode_robot36_image ysamp csamp conv chain
        = Inl (RuntimeError ''Could not find a stable Robot36 line sync chain''))
   \<and> (200 \<le> length chain \<longrightarrow>
        (\<exists>img. decode_robot36_image ysamp csamp conv chain = Inr img
               \<and> length img = 240 \<and> (\<forall>row\<in>set img. length row = 320)))"
proof (intro conjI impI)
  assume "length chain < 200"
  then show "decode_robot36_image ysamp csamp conv chain
        = Inl (RuntimeError ''Could not find a stable Robot36 line sync chain'')"
    by (simp add: decode_robot36_image_def)
next
  assume l: "200 \<le> length chain"
  obtain y cb cr where f: "fill_lines ysamp csamp 320 0 (take 240 chain)
      (replicate 240 (replicate 320 0), replicate 120 (replicate 320 0), replicate 120 (replicate 320 0))
      = (y, cb, cr)"
    by (rule prod_cases3)
  from fill_lines_shaped [OF shaped_replicate shaped_replicate shaped_replicate f]
  have s: "shaped 240 320 y" "shaped 120 320 cb" "shaped 120 320 cr" by simp_all
  have "decode_robot36_image ysamp csamp conv chain = Inr (concat (map (\<lambda>pair.
                       map (\<lambda>row. ycbcr_row conv (y ! row) (cb ! pair) (cr ! pair))
                         [2 * pair, 2 * pair + 1])
                     [0..<240 div 2]))"
    using l f by (simp add: decode_robot36_image_def Let_def)
  with image_shape [OF s, of conv]
  show "\<exists>img. decode_robot36_image ysamp csamp conv chain = Inr img
               \<and> length img = 240 \<and> (\<forall>row\<in>set img. length row = 320)"
    by simp
qed

theorem robot36_sync_failure_and_shape_witness:
  "length (replicate 199 (0::int)) < 200
   \<and> decode_robot36_image (\<lambda>s k. 0) (\<lambda>s k. 0) (\<lambda>y cb cr. (y, cb, cr)) (replicate 199 0)
        = Inl (RuntimeError ''Could not find a stable Robot36 line sync chain'')
   \<and> 200 \<le> length (replicate 200 (0::int))
   \<and> (\<exists>img. decode_robot36_image (\<lambda>s k. 0) (\<lambda>s k. 0) (\<lambda>y cb cr. (y, cb, cr)) (replicate 200 0) = Inr img
          \<and> length img = 240 \<and> list_all (\<lambda>row. length row = 320) img)"
proof -
  have a: "length (replicate 199 (0::int)) < 200" by simp
  have b: "200 \<le> length (replicate 200 (0::int))" by simp
  show ?thesis
    using a b
      robot36_sync_failure_and_shape [of "replicate 199 0" "\<lambda>s k. 0" "\<lambda>s k. 0" "\<lambda>y cb cr. (y, cb, cr)"]
      robot36_sync_failure_and_shape [of "replicate 200 0" "\<lambda>s k. 0" "\<lambda>s k. 0" "\<lambda>y cb cr. (y, cb, cr)"]
    unfolding list_all_iff by blast
qed

section \<open>Properties of the modem\<close>

lemma pack_h_vals: "pack_h 20000 = Inr [0x20, 0x4E]" "pack_h (- 20000) = Inr [0xE0, 0xB1]"
  by code_simp+

lemma replicate5: "replicate 5 x = [x, x, x, x, x]"
  by (simp add: numeral_eq_Suc)

lemma unpack_h_vals:
  "unpack_h (0x20 # 0x4E # rest) = 20000 # unpack_h rest"
  "unpack_h (0xE0 # 0xB1 # rest) = - 20000 # unpack_h rest"
  by (simp_all add: Let_def)

lemma pcm_loop_default: "pcm_loop levels 20000 5 = Inr (pcm5 levels)"
  by (induction levels) (simp_all add: pcm5_def pack_h_vals ebind_def Let_def)

lemma unpack_pcm5: "unpack_h (pcm5 levels @ rest) = expand5 levels @ unpack_h rest"
proof (induction levels)
  case Nil
  show ?case by (simp add: pcm5_def expand5_def)
next
  case (Cons l levels)
  have "pcm5 (l # levels) = concat (replicate 5 (if l \<noteq> 0 then [0x20, 0x4E] else [0xE0, 0xB1])) @ pcm5 levels"
    by (simp add: pcm5_def)
  moreover have "expand5 (l # levels) = replicate 5 (level_val l) @ expand5 levels"
    by (simp add: expand5_def)
  ultimately show ?case
    using Cons.IH by (simp add: replicate5 unpack_h_vals level_val_def)
qed

lemma length_pcm5: "length (pcm5 levels) = 10 * length levels"
  by (induction levels) (simp_all add: pcm5_def replicate5)

lemma avg_sign: "0 < n \<Longrightarrow> (0 \<le> (of_int s :: rat) / of_nat n) = (0 \<le> s)"
  by (simp add: zero_le_divide_iff)

lemma levels_loop_levels5: "levels_loop samples 5 i = levels5 (drop i samples)"
proof (induction samples "5::nat" i rule: levels_loop.induct)
  case (1 samples i)
  show ?case
  proof (cases "i + 5 \<le> length samples")
    case False
    then have "length (drop i samples) < 5" by simp
    then have "levels5 (drop i samples) = []"
      by (cases "drop i samples" rule: levels5.cases) simp_all
    moreover have "levels_loop samples 5 i = []"
      using False by (subst levels_loop.simps) simp
    ultimately show ?thesis by simp
  next
    case True
    then have "5 \<le> length (drop i samples)" by simp
    then obtain a b c d e rest where dr: "drop i samples = a # b # c # d # e # rest"
      by (cases "drop i samples" rule: levels5.cases) simp_all
    have "drop (i + 5) samples = drop 5 (drop i samples)" by (simp add: add.commute)
    then have dr5: "drop (i + 5) samples = rest" unfolding dr by simp
    have ih: "levels_loop samples 5 (i + 5) = levels5 rest"
      using 1 [OF _ refl refl] True dr5 by simp
    have "levels_loop samples 5 i =
        (if 0 \<le> (of_int (sum_list (take 5 (drop i samples))) :: rat) / of_nat 5 then 1 else 0)
          # levels_loop samples 5 (i + 5)"
      using True by (subst levels_loop.simps) (simp add: Let_def)
    also have "\<dots> = (if 0 \<le> a + b + c + d + e then 1 else 0) # levels5 rest"
      unfolding ih dr avg_sign [of 5, simplified] by simp
    finally show ?thesis unfolding dr by simp
  qed
qed

lemma expand5_Cons: "expand5 (l # ls) = replicate 5 (level_val l) @ expand5 ls"
  by (simp add: expand5_def)

lemma expand5_Nil: "expand5 [] = []"
  by (simp add: expand5_def)

lemma levels5_phase0: "levels5 (expand5 ls) = map bitval ls"
proof (induction ls)
  case Nil
  show ?case by (simp add: expand5_Nil)
next
  case (Cons l ls)
  have "levels5 (expand5 (l # ls)) = bitval l # levels5 (expand5 ls)"
    by (simp add: expand5_Cons replicate5 level_val_def bitval_def)
  then show ?case using Cons.IH by simp
qed

lemma levels5_phase1: "levels5 (replicate 4 (level_val l) @ expand5 ls) = map bitval (butlast (l # ls))"
proof (induction ls arbitrary: l)
  case Nil
  show ?case by (simp add: expand5_Nil numeral_eq_Suc)
next
  case (Cons l' ls)
  have r4: "replicate 4 x = [x, x, x, x]" for x :: int by (simp add: numeral_eq_Suc)
  have "levels5 (replicate 4 (level_val l) @ expand5 (l' # ls))
      = bitval l # levels5 (replicate 4 (level_val l') @ expand5 ls)"
    by (simp add: expand5_Cons replicate5 r4 level_val_def bitval_def)
  then show ?case using Cons.IH [of l'] by simp
qed

lemma levels5_phase2: "levels5 (replicate 3 (level_val l) @ expand5 ls) = map bitval (butlast (l # ls))"
proof (induction ls arbitrary: l)
  case Nil
  show ?case by (simp add: expand5_Nil numeral_eq_Suc)
next
  case (Cons l' ls)
  have r3: "replicate 3 x = [x, x, x]" for x :: int by (simp add: numeral_eq_Suc)
  have "levels5 (replicate 3 (level_val l) @ expand5 (l' # ls))
      = bitval l # levels5 (replicate 3 (level_val l') @ expand5 ls)"
    by (simp add: expand5_Cons replicate5 r3 level_val_def bitval_def)
  then show ?case using Cons.IH [of l'] by simp
qed

lemma levels5_phase3: "levels5 (replicate 2 (level_val l) @ expand5 ls) = map bitval ls"
proof (induction ls arbitrary: l)
  case Nil
  show ?case by (simp add: expand5_Nil numeral_eq_Suc)
next
  case (Cons l' ls)
  have r2: "replicate 2 x = [x, x]" for x :: int by (simp add: numeral_eq_Suc)
  have "levels5 (replicate 2 (level_val l) @ expand5 (l' # ls))
      = bitval l' # levels5 (replicate 2 (level_val l') @ expand5 ls)"
    by (simp add: expand5_Cons replicate5 r2 level_val_def bitval_def)
  then show ?case using Cons.IH [of l'] by simp
qed

lemma levels5_phase4: "levels5 (replicate 1 (level_val l) @ expand5 ls) = map bitval ls"
proof (induction ls arbitrary: l)
  case Nil
  show ?case by (simp add: expand5_Nil)
next
  case (Cons l' ls)
  have "levels5 (replicate 1 (level_val l) @ expand5 (l' # ls))
      = bitval l' # levels5 (replicate 1 (level_val l') @ expand5 ls)"
    by (simp add: expand5_Cons replicate5 level_val_def bitval_def)
  then show ?case using Cons.IH [of l'] by simp
qed

lemma replicate_small:
  "replicate 4 x = [x, x, x, x]" "replicate 3 x = [x, x, x]" "replicate 2 x = [x, x]"
  "replicate 1 x = [x]"
  by (simp_all add: numeral_eq_Suc)

lemma drop_expand5:
  "drop 1 (expand5 (l # ls)) = replicate 4 (level_val l) @ expand5 ls"
  "drop 2 (expand5 (l # ls)) = replicate 3 (level_val l) @ expand5 ls"
  "drop 3 (expand5 (l # ls)) = replicate 2 (level_val l) @ expand5 ls"
  "drop 4 (expand5 (l # ls)) = replicate 1 (level_val l) @ expand5 ls"
  unfolding expand5_Cons replicate5 replicate_small by simp_all

lemma levels_phase0: "levels_loop (expand5 ls) 5 0 = map bitval ls"
  by (simp add: levels_loop_levels5 levels5_phase0)

lemma levels_phase1: "levels_loop (expand5 ls) 5 1 = map bitval (butlast ls)"
proof (cases ls)
  case Nil
  then show ?thesis by (simp add: levels_loop_levels5 expand5_Nil)
next
  case (Cons l ls')
  show ?thesis unfolding levels_loop_levels5 Cons drop_expand5 by (rule levels5_phase1)
qed

lemma levels_phase2: "levels_loop (expand5 ls) 5 2 = map bitval (butlast ls)"
proof (cases ls)
  case Nil
  then show ?thesis by (simp add: levels_loop_levels5 expand5_Nil)
next
  case (Cons l ls')
  show ?thesis unfolding levels_loop_levels5 Cons drop_expand5 by (rule levels5_phase2)
qed

lemma levels_phase3: "levels_loop (expand5 ls) 5 3 = map bitval (tl ls)"
proof (cases ls)
  case Nil
  then show ?thesis by (simp add: levels_loop_levels5 expand5_Nil)
next
  case (Cons l ls')
  show ?thesis unfolding levels_loop_levels5 Cons drop_expand5 list.sel by (rule levels5_phase3)
qed

lemma levels_phase4: "levels_loop (expand5 ls) 5 4 = map bitval (tl ls)"
proof (cases ls)
  case Nil
  then show ?thesis by (simp add: levels_loop_levels5 expand5_Nil)
next
  case (Cons l ls')
  show ?thesis unfolding levels_loop_levels5 Cons drop_expand5 list.sel by (rule levels5_phase4)
qed

lemma nrzi_encode_loop_01:
  "lvl = 0 \<or> lvl = 1 \<Longrightarrow> \<forall>l\<in>set (nrzi_encode_loop lvl bits). l = 0 \<or> l = 1"
proof (induction bits arbitrary: lvl)
  case Nil
  show ?case by simp
next
  case (Cons b bits)
  have "lvl XOR 1 = 0 \<or> lvl XOR 1 = 1" using Cons.prems by auto
  then show ?case using Cons.IH Cons.prems by (auto simp: Let_def)
qed

lemma nrzi_encode_01: "\<forall>l\<in>set (nrzi_encode bits lvl). l = 0 \<or> l = 1"
proof -
  have "lvl AND 1 = 0 \<or> lvl AND 1 = 1" by (simp add: and_one_eq) presburger
  then show ?thesis using nrzi_encode_loop_01 by (simp add: nrzi_encode_def Let_def)
qed

lemma map_bitval_01: "\<forall>l\<in>set ls. l = 0 \<or> l = 1 \<Longrightarrow> map bitval ls = ls"
  by (induction ls) (auto simp: bitval_def)

lemma xor1_neq: "(l :: int) XOR 1 \<noteq> l"
proof
  assume "l XOR 1 = l"
  then have "(l XOR 1) XOR l = l XOR l" by simp
  then show False by (simp add: xor.commute xor.left_commute)
qed

lemma nrzi_decode_encode_loop:
  "\<forall>b\<in>set bits. b = 0 \<or> b = 1 \<Longrightarrow> nrzi_decode_loop lvl (nrzi_encode_loop lvl bits) = bits"
proof (induction bits arbitrary: lvl)
  case Nil
  show ?case by simp
next
  case (Cons b bits)
  then have b: "b = 0 \<or> b = 1" and bs: "\<forall>b\<in>set bits. b = 0 \<or> b = 1" by auto
  from b show ?case
  proof
    assume "b = 0"
    then show ?thesis using Cons.IH [OF bs] xor1_neq [of lvl] by (simp add: Let_def)
  next
    assume "b = 1"
    then show ?thesis using Cons.IH [OF bs] by (simp add: Let_def)
  qed
qed

lemma nrzi_decode_encode:
  "\<forall>b\<in>set bits. b = 0 \<or> b = 1 \<Longrightarrow> nrzi_decode (nrzi_encode bits lvl) = bits"
  by (simp add: nrzi_encode_def Let_def nrzi_decode_encode_loop)

lemma xor1_inj: "((a :: int) XOR 1 = b XOR 1) = (a = b)"
proof
  assume "a XOR 1 = b XOR 1"
  then have "(a XOR 1) XOR 1 = (b XOR 1) XOR 1" by simp
  then show "a = b" by (simp add: xor.assoc)
qed simp

lemma nrzi_decode_loop_inverted:
  "nrzi_decode_loop (p XOR 1) (map (\<lambda>l. l XOR 1) ls) = nrzi_decode_loop p ls"
  by (induction ls arbitrary: p) (simp_all add: xor1_inj)

lemma nrzi_decode_inverted: "nrzi_decode (map (\<lambda>l. l XOR 1) ls) = nrzi_decode ls"
  by (cases ls) (simp_all add: nrzi_decode_loop_inverted)

lemma mod_default_eq:
  "mod_default F =
     Inr \<lparr>nchannels = 1, sampwidth = 2, framerate = 48000, pcm_frames = pcm5 (tx_levels F)\<rparr>"
  by (simp add: mod_default_def mod_ax25_frame_to_wav_def Let_def tx_levels_def tx_bits_def
        pcm_loop_default ebind_def)

lemma py_round_5: "py_round 5 = 5"
  by (simp add: py_round_def Let_def)

lemma demod_default_eq:
  "demod_wav_to_ax25_frames
     \<lparr>nchannels = 1, sampwidth = 2, framerate = 48000, pcm_frames = pcm5 L\<rparr> 9600 =
     Inr (case foldl (try_phase (expand5 L) 5) None [0..<5] of
            Some b \<Rightarrow> b
          | None \<Rightarrow> \<lparr>frames = [], chosen_phase = 0, inverted = False, descramble_variant = 0\<rparr>)"
proof -
  have u: "unpack_h (pcm5 L) = expand5 L" using unpack_pcm5 [of L "[]"] by simp
  have r: "(of_int 48000 :: rat) / of_int 9600 = 5" by simp
  show ?thesis
    unfolding demod_wav_to_ax25_frames_def Let_def
    by (simp add: r py_round_5 u length_pcm5)
qed

lemma try_inverted_eq:
  "try_inverted levels phase best ivt =
     foldl (try_variant (nrzi_decode levels) phase ivt) best [0, 1]"
proof -
  have "map (\<lambda>l. l XOR (if ivt then 1 else 0)) levels = (if ivt then map (\<lambda>l. l XOR 1) levels else levels)"
    by simp
  then have "nrzi_decode (map (\<lambda>l. l XOR (if ivt then 1 else 0)) levels) = nrzi_decode levels"
    by (simp add: nrzi_decode_inverted)
  then show ?thesis unfolding try_inverted_def Let_def by simp
qed

lemma upt5: "[0..<5] = [0, 1, 2, 3, 4]"
  by code_simp

lemma tx_levels_01: "map bitval (tx_levels F) = tx_levels F"
  "map bitval (butlast (tx_levels F)) = butlast (tx_levels F)"
  "map bitval (tl (tx_levels F)) = tl (tx_levels F)"
proof -
  have a: "\<forall>l\<in>set (tx_levels F). l = 0 \<or> l = 1" unfolding tx_levels_def by (rule nrzi_encode_01)
  show "map bitval (tx_levels F) = tx_levels F" by (rule map_bitval_01 [OF a])
  have "\<forall>l\<in>set (butlast (tx_levels F)). l = 0 \<or> l = 1" using a by (meson in_set_butlastD)
  then show "map bitval (butlast (tx_levels F)) = butlast (tx_levels F)" by (rule map_bitval_01)
  have "\<forall>l\<in>set (tl (tx_levels F)). l = 0 \<or> l = 1" using a by (cases "tx_levels F") auto
  then show "map bitval (tl (tx_levels F)) = tl (tx_levels F)" by (rule map_bitval_01)
qed

lemma search_result:
  assumes f0: "extract_hdlc_frames (g3ruh_descramble (nrzi_decode (tx_levels F)) 0) = []"
    and f1: "extract_hdlc_frames (g3ruh_descramble (nrzi_decode (tx_levels F)) 1) = [F]"
    and b0: "extract_hdlc_frames (g3ruh_descramble (nrzi_decode (butlast (tx_levels F))) 0) = []"
    and b1: "length (extract_hdlc_frames (g3ruh_descramble (nrzi_decode (butlast (tx_levels F))) 1)) \<le> 1"
    and t0: "extract_hdlc_frames (g3ruh_descramble (nrzi_decode (tl (tx_levels F))) 0) = []"
    and t1: "length (extract_hdlc_frames (g3ruh_descramble (nrzi_decode (tl (tx_levels F))) 1)) \<le> 1"
  shows "modem_roundtrip F =
     Inr \<lparr>frames = [F], chosen_phase = 0, inverted = False, descramble_variant = 1\<rparr>"
proof -
  let ?R = "\<lparr>frames = [F], chosen_phase = 0, inverted = False, descramble_variant = 1\<rparr>"
  have keep: "try_variant bits ph iv (Some ?R) v = Some ?R"
    if "length (extract_hdlc_frames (g3ruh_descramble bits v)) \<le> 1" for bits ph iv v
    using that by (simp add: try_variant_def Let_def)
  have keep0: "try_variant bits ph iv best v = best"
    if "extract_hdlc_frames (g3ruh_descramble bits v) = []" for bits ph iv v best
    using that by (simp add: try_variant_def Let_def)
  have p0: "try_phase (expand5 (tx_levels F)) 5 None 0 = Some ?R"
    unfolding try_phase_def Let_def levels_phase0 tx_levels_01 try_inverted_eq
    by (simp add: keep0 [OF f0] keep f1) (simp add: try_variant_def Let_def f1)
  have p1: "try_phase (expand5 (tx_levels F)) 5 (Some ?R) 1 = Some ?R"
    unfolding try_phase_def Let_def levels_phase1 tx_levels_01 try_inverted_eq
    by (simp add: keep0 [OF b0] keep [OF b1])
  have p2: "try_phase (expand5 (tx_levels F)) 5 (Some ?R) 2 = Some ?R"
    unfolding try_phase_def Let_def levels_phase2 tx_levels_01 try_inverted_eq
    by (simp add: keep0 [OF b0] keep [OF b1])
  have p3: "try_phase (expand5 (tx_levels F)) 5 (Some ?R) 3 = Some ?R"
    unfolding try_phase_def Let_def levels_phase3 tx_levels_01 try_inverted_eq
    by (simp add: keep0 [OF t0] keep [OF t1])
  have p4: "try_phase (expand5 (tx_levels F)) 5 (Some ?R) 4 = Some ?R"
    unfolding try_phase_def Let_def levels_phase4 tx_levels_01 try_inverted_eq
    by (simp add: keep0 [OF t0] keep [OF t1])
  have "foldl (try_phase (expand5 (tx_levels F)) 5) None [0..<5] = Some ?R"
    unfolding upt5 foldl.simps p0 p1 p2 p3 p4 by (rule refl)
  then show ?thesis
    unfolding modem_roundtrip_def mod_default_eq
    by (simp add: ebind_def demod_default_eq)
qed

lemma cand_full_0:
  "extract_hdlc_frames (g3ruh_descramble (nrzi_decode (tx_levels s4_frame)) 0) = []"
  unfolding extract_hdlc_frames_def flag_positions_find Let_def by code_simp

lemma cand_full_1:
  "extract_hdlc_frames (g3ruh_descramble (nrzi_decode (tx_levels s4_frame)) 1) = [s4_frame]"
  unfolding extract_hdlc_frames_def flag_positions_find Let_def by code_simp

lemma cand_butlast_0:
  "extract_hdlc_frames (g3ruh_descramble (nrzi_decode (butlast (tx_levels s4_frame))) 0) = []"
  unfolding extract_hdlc_frames_def flag_positions_find Let_def by code_simp

lemma cand_butlast_1:
  "extract_hdlc_frames (g3ruh_descramble (nrzi_decode (butlast (tx_levels s4_frame))) 1) = [s4_frame]"
  unfolding extract_hdlc_frames_def flag_positions_find Let_def by code_simp

lemma cand_tl_0:
  "extract_hdlc_frames (g3ruh_descramble (nrzi_decode (tl (tx_levels s4_frame))) 0) = []"
  unfolding extract_hdlc_frames_def flag_positions_find Let_def by code_simp

lemma cand_tl_1:
  "extract_hdlc_frames (g3ruh_descramble (nrzi_decode (tl (tx_levels s4_frame))) 1) = [s4_frame]"
  unfolding extract_hdlc_frames_def flag_positions_find Let_def by code_simp

text \<open>
  C2. The claim asks that the demodulator report the encoder's scramble variant. At the
  20-byte frame \<open>s4_frame\<close>, modulated with every default (scramble variant 0) and
  demodulated, the code returns exactly one frame, the input, found at phase 0 and not
  inverted, but with descramble variant 1: the candidates of variant 0 extract nothing
  at any phase, because descrambling with the variant that scrambled does not give
  the bits back.
\<close>

theorem modem_roundtrip_variant_mismatch:
  "modem_roundtrip s4_frame =
     Inr \<lparr>frames = [s4_frame], chosen_phase = 0, inverted = False, descramble_variant = 1\<rparr>"
proof (rule search_result)
  show "extract_hdlc_frames (g3ruh_descramble (nrzi_decode (tx_levels s4_frame)) 0) = []"
    by (rule cand_full_0)
  show "extract_hdlc_frames (g3ruh_descramble (nrzi_decode (tx_levels s4_frame)) 1) = [s4_frame]"
    by (rule cand_full_1)
  show "extract_hdlc_frames (g3ruh_descramble (nrzi_decode (butlast (tx_levels s4_frame))) 0) = []"
    by (rule cand_butlast_0)
  show "length (extract_hdlc_frames
      (g3ruh_descramble (nrzi_decode (butlast (tx_levels s4_frame))) 1)) \<le> 1"
    unfolding cand_butlast_1 by simp
  show "extract_hdlc_frames (g3ruh_descramble (nrzi_decode (tl (tx_levels s4_frame))) 0) = []"
    by (rule cand_tl_0)
  show "length (extract_hdlc_frames
      (g3ruh_descramble (nrzi_decode (tl (tx_levels s4_frame))) 1)) \<le> 1"
    unfolding cand_tl_1 by simp
qed

end
